theory Spec2Isabelle
  imports Main "HOL-Library.Char_ord" "HOL-Library.List_Lexorder" "HOL-Library.Product_Lexorder"
begin

section \<open>Python values shared by the scripts\<close>

text \<open>
  Strings are modelled as \<open>string\<close> (lists of 8-bit characters), which is exact for the
  ASCII text all the patterns of the scripts are written in. Exceptions are values of
  \<open>py_error\<close>, and a call that may raise returns \<open>py_error + 'a\<close>.
\<close>

datatype py_error =
    ValueError
  | HTTPError nat
  | ConnectionError
  | PdfReadError
  | FileNotFoundError
  | SystemExit
  | StorageError
  | ApiError

section \<open>Text helpers: case folding, str.replace and re.sub\<close>

text \<open>
  \<open>str.lower\<close> on ASCII text. \<open>sub_all eq pat rep s\<close> replaces the leftmost,
  non-overlapping occurrences of the literal pattern \<open>pat\<close> in one left-to-right pass, as
  \<open>str.replace\<close> and \<open>re.sub\<close> of a literal pattern both do: after a match the scan
  resumes behind it, and the replaced text is never scanned again. \<open>eq\<close> compares a pattern
  character with a text character (\<open>(=)\<close>, or equality up to case under
  \<open>re.IGNORECASE\<close>). The scripts only pass non-empty patterns.
\<close>

definition ascii_lower :: "char \<Rightarrow> char" where
  "ascii_lower c =
     (if CHR ''A'' \<le> c \<and> c \<le> CHR ''Z'' then char_of (of_char c + (32::nat)) else c)"

definition lower :: "string \<Rightarrow> string" where
  "lower s = map ascii_lower s"

definition starts_with :: "(char \<Rightarrow> char \<Rightarrow> bool) \<Rightarrow> string \<Rightarrow> string \<Rightarrow> bool" where
  "starts_with eq pat s = (length pat \<le> length s \<and> list_all2 eq pat (take (length pat) s))"

function sub_all :: "(char \<Rightarrow> char \<Rightarrow> bool) \<Rightarrow> string \<Rightarrow> string \<Rightarrow> string \<Rightarrow> string" where
  "sub_all eq pat rep s =
     (if pat = [] \<or> s = [] then s
      else if starts_with eq pat s then rep @ sub_all eq pat rep (drop (length pat) s)
      else hd s # sub_all eq pat rep (tl s))"
  by pat_completeness auto
termination
  by (relation "measure (\<lambda>(eq, pat, rep, s). length s)") auto

declare sub_all.simps [simp del]

definition eq_ignorecase :: "char \<Rightarrow> char \<Rightarrow> bool" where
  "eq_ignorecase p c = (ascii_lower p = ascii_lower c)"

section \<open>tools/prep_ccps_supabase_csv.py: clean_text\<close>

text \<open>
  \<open>CONTROL_RE\<close> is \<^verbatim>\<open>[\x00-\x08\x0b\x0c\x0e-\x1f]\<close>; \<open>esc_u0000\<close> is the six
  characters backslash, u, 0, 0, 0, 0 that the pattern \<^verbatim>\<open>\\u0000\<close> matches. The steps of
  \<open>clean_text\<close> are those of the source, in its order.
\<close>

definition is_control :: "char \<Rightarrow> bool" where
  "is_control c =
     (let k = (of_char c :: nat) in k \<le> 8 \<or> k = 11 \<or> k = 12 \<or> (14 \<le> k \<and> k \<le> 31))"

definition esc_u0000 :: string where
  "esc_u0000 = CHR 0x5C # ''u0000''"

definition clean_text :: "string option \<Rightarrow> string" where
  "clean_text s0 =
     (case s0 of
        None \<Rightarrow> []
      | Some s \<Rightarrow>
          (let s1 = sub_all (=) [CHR 0x0D] [CHR 0x0A] (sub_all (=) [CHR 0x0D, CHR 0x0A] [CHR 0x0A] s);
               s2 = sub_all (=) [CHR 0x00] [] s1;
               s3 = sub_all eq_ignorecase esc_u0000 [] s2
           in map (\<lambda>c. if is_control c then CHR '' '' else c) s3))"

section \<open>The outside world of the harvesters\<close>

text \<open>
  An HTTP response carries its status and its body. What the libraries compute is a
  parameter of the model, collected in \<open>env\<close>:
  \<^item> \<open>http_get\<close> is \<open>session.get\<close>: the response, or the exception \<open>requests\<close> raises;
  \<^item> \<open>soup\<close> is \<open>BeautifulSoup(html, "html.parser")\<close> as far as the scripts read it: the
    anchors that carry an \<open>href\<close>, in document order, each with its \<open>get_text()\<close>;
  \<^item> \<open>urljoin\<close> is \<open>urllib.parse.urljoin\<close>;
  \<^item> \<open>query_page\<close> is \<open>int(parse_qs(urlparse(full).query)["page"][0])\<close>, \<open>None\<close> when
    the URL has no \<open>page\<close> parameter or \<open>int\<close> raises;
  \<^item> \<open>set_iter\<close> is the order in which Python iterates a set whose elements were
    inserted in the given order;
  \<^item> \<open>page_title\<close> is \<open>extract_title_from_english_page\<close>, which no property below
    depends on;
  \<^item> \<open>pdf_page_texts\<close> is \<open>PdfReader\<close> on the bytes of a file: \<open>extract_text()\<close> of
    each page, or the exception PyPDF2 raises;
  \<^item> \<open>upload_error\<close> and \<open>upsert_error\<close> say for which object path and which
    \<open>source_page_url\<close> the remote store raises.
\<close>

record response =
  status_code :: nat
  body :: string

record anchor =
  a_text :: string
  a_href :: string

record env =
  http_get :: "string \<Rightarrow> py_error + response"
  soup :: "string \<Rightarrow> anchor list"
  urljoin :: "string \<Rightarrow> string \<Rightarrow> string"
  query_page :: "string \<Rightarrow> int option"
  set_iter :: "string list \<Rightarrow> string list"
  page_title :: "string \<Rightarrow> string"
  pdf_page_texts :: "string \<Rightarrow> py_error + string option list"
  upload_error :: "string \<Rightarrow> py_error option"
  upsert_error :: "string \<Rightarrow> py_error option"

text \<open>\<open>Response.raise_for_status\<close>: an \<open>HTTPError\<close> for the statuses 400 to 599.\<close>

definition raise_for_status :: "response \<Rightarrow> py_error option" where
  "raise_for_status r =
     (if 400 \<le> status_code r \<and> status_code r < 600 then Some (HTTPError (status_code r))
      else None)"

section \<open>Formatting and parsing numbers\<close>

definition digit_char :: "nat \<Rightarrow> char" where
  "digit_char d = char_of (48 + d)"

function str_nat :: "nat \<Rightarrow> string" where
  "str_nat n = (if n < 10 then [digit_char n] else str_nat (n div 10) @ [digit_char (n mod 10)])"
  by pat_completeness auto
termination
  by (relation "measure id") auto

declare str_nat.simps [simp del]

text \<open>The format \<^verbatim>\<open>{month:02d}\<close>.\<close>

definition fmt02 :: "nat \<Rightarrow> string" where
  "fmt02 n = (if n < 10 then CHR ''0'' # str_nat n else str_nat n)"

definition is_digit :: "char \<Rightarrow> bool" where
  "is_digit c = (CHR ''0'' \<le> c \<and> c \<le> CHR ''9'')"

definition is_lower_az :: "char \<Rightarrow> bool" where
  "is_lower_az c = (CHR ''a'' \<le> c \<and> c \<le> CHR ''z'')"

text \<open>\<open>int\<close> on a string of decimal digits.\<close>

definition int_of_digits :: "string \<Rightarrow> int" where
  "int_of_digits ds = foldl (\<lambda>acc c. 10 * acc + (int (of_char c) - 48)) 0 ds"

section \<open>backend/collecter_past.py: archive discovery\<close>

definition ARCHIVES_ROOT :: string where
  "ARCHIVES_ROOT = ''https://ccps.aiche.org/resources/process-safety-beacon/archives''"

definition MONTHS :: "(string \<times> int) list" where
  "MONTHS =
     [(''january'', 1), (''february'', 2), (''march'', 3), (''april'', 4), (''may'', 5),
      (''june'', 6), (''july'', 7), (''august'', 8), (''september'', 9), (''october'', 10),
      (''november'', 11), (''december'', 12)]"

definition fetch :: "env \<Rightarrow> string \<Rightarrow> py_error + string" where
  "fetch e url =
     (case http_get e url of
        Inl err \<Rightarrow> Inl err
      | Inr r \<Rightarrow> (case raise_for_status r of Some err \<Rightarrow> Inl err | None \<Rightarrow> Inr (body r)))"

definition parse_last_page_num :: "env \<Rightarrow> string \<Rightarrow> int" where
  "parse_last_page_num e html =
     foldl (\<lambda>max_page a.
              case query_page e (urljoin e ARCHIVES_ROOT (a_href a)) of
                None \<Rightarrow> max_page
              | Some p \<Rightarrow> max max_page p)
           0 (soup e html)"

text \<open>
  The regular expression \<^verbatim>\<open>/archives/(\d{4})/([a-z]+)/english/?$\<close>.
  \<open>match_english_at s\<close> matches it at the start of \<open>s\<close> and returns the two groups;
  \<open>$\<close> matches at the end of the string and before a newline that ends it.
  \<open>re_search_english\<close> is \<open>re.search\<close>: the first position with a match.
\<close>

definition match_english_tail :: "string \<Rightarrow> bool" where
  "match_english_tail s =
     (s = ''/english'' \<or> s = ''/english/'' \<or> s = ''/english'' @ [CHR 0x0A]
      \<or> s = ''/english/'' @ [CHR 0x0A])"

definition match_english_at :: "string \<Rightarrow> (string \<times> string) option" where
  "match_english_at s =
     (if take 10 s = ''/archives/'' then
        (let r1 = drop 10 s; y = take 4 r1; r2 = drop 4 r1 in
         if length y = 4 \<and> list_all is_digit y \<and> take 1 r2 = ''/'' then
           (let r3 = drop 1 r2; m = takeWhile is_lower_az r3; r4 = dropWhile is_lower_az r3 in
            if m \<noteq> [] \<and> match_english_tail r4 then Some (y, m) else None)
         else None)
      else None)"

fun re_search_english :: "string \<Rightarrow> (string \<times> string) option" where
  "re_search_english [] = None"
| "re_search_english (c # cs) =
     (case match_english_at (c # cs) of
        Some g \<Rightarrow> Some g
      | None \<Rightarrow> re_search_english cs)"

text \<open>\<open>s.rstrip("/")\<close>.\<close>

definition rstrip_slash :: "string \<Rightarrow> string" where
  "rstrip_slash s = rev (dropWhile (\<lambda>c. c = CHR ''/'') (rev s))"

definition extract_english_links_from_archive_page :: "env \<Rightarrow> string \<Rightarrow> string list" where
  "extract_english_links_from_archive_page e html =
     map rstrip_slash
       (filter (\<lambda>full. re_search_english full \<noteq> None)
          (map (\<lambda>a. urljoin e ARCHIVES_ROOT (a_href a)) (soup e html)))"

definition parse_year_month_from_english_url :: "string \<Rightarrow> (int \<times> int) option" where
  "parse_year_month_from_english_url url =
     (case re_search_english url of
        None \<Rightarrow> None
      | Some (y, m) \<Rightarrow>
          (case map_of MONTHS (lower m) of
             None \<Rightarrow> None
           | Some month \<Rightarrow> if month = 0 then None else Some (int_of_digits y, month)))"

text \<open>
  The listing URL of a page index, and one round of the \<open>for page in range(...)\<close> loop.
  The Python set \<open>pages\<close> is a duplicate-free list in insertion order; \<open>fetched\<close> records
  every listing URL requested, in order. \<open>discover_loop\<close> returns the exception that
  ends the loop, if any, together with what was accumulated.
\<close>

definition page_url :: "nat \<Rightarrow> string" where
  "page_url p = (if p = 0 then ARCHIVES_ROOT else ARCHIVES_ROOT @ ''?page='' @ str_nat p)"

record discovery =
  fetched :: "string list"
  pages :: "string list"

definition years_in_page :: "string list \<Rightarrow> int list" where
  "years_in_page links =
     map fst (List.map_filter parse_year_month_from_english_url links)"

definition kept_links :: "int \<Rightarrow> string list \<Rightarrow> string list" where
  "kept_links min_year links =
     filter (\<lambda>u. case parse_year_month_from_english_url u of
                    None \<Rightarrow> False
                  | Some (y, m) \<Rightarrow> min_year \<le> y) links"

definition set_add :: "string \<Rightarrow> string list \<Rightarrow> string list" where
  "set_add x xs = (if x \<in> set xs then xs else xs @ [x])"

fun discover_loop :: "env \<Rightarrow> int \<Rightarrow> nat list \<Rightarrow> discovery \<Rightarrow> discovery \<times> py_error option" where
  "discover_loop e min_year [] d = (d, None)"
| "discover_loop e min_year (p # ps) d =
     (let d1 = d\<lparr>fetched := fetched d @ [page_url p]\<rparr> in
      case fetch e (page_url p) of
        Inl err \<Rightarrow> (d1, Some err)
      | Inr html \<Rightarrow>
          (let links = extract_english_links_from_archive_page e html in
           if links = [] then (d1, None)
           else
             (let years = years_in_page links;
                  d2 = d1\<lparr>pages := foldl (\<lambda>acc u. set_add u acc) (pages d1) (kept_links min_year links)\<rparr>
              in if years \<noteq> [] \<and> Max (set years) < min_year then (d2, None)
                 else discover_loop e min_year ps d2)))"

definition sort_key_ym :: "string \<Rightarrow> int \<times> int" where
  "sort_key_ym u = (case parse_year_month_from_english_url u of None \<Rightarrow> (0, 0) | Some ym \<Rightarrow> ym)"

text \<open>\<open>sorted(xs, key=k, reverse=True)\<close>: stable, descending.\<close>

definition sorted_reverse :: "('a \<Rightarrow> 'k::linorder) \<Rightarrow> 'a list \<Rightarrow> 'a list" where
  "sorted_reverse k xs = rev (sort_key k (rev xs))"

text \<open>
  \<open>discover_english_pages\<close>: the first fetch of the archive root for the pagination, the
  loop over \<open>range(0, last_page + 1)\<close>, and the final sort. The result is the trace of
  listing URLs requested and either the exception that escapes or the sorted list.
\<close>

definition page_range :: "int \<Rightarrow> nat list" where
  "page_range last_page = [0 ..< nat (last_page + 1)]"

definition discover_english_pages ::
  "env \<Rightarrow> int \<Rightarrow> int option \<Rightarrow> string list \<times> (py_error + string list)" where
  "discover_english_pages e min_year max_pages =
     (case fetch e ARCHIVES_ROOT of
        Inl err \<Rightarrow> ([ARCHIVES_ROOT], Inl err)
      | Inr first_html \<Rightarrow>
          (let lp = parse_last_page_num e first_html;
               last_page = (case max_pages of None \<Rightarrow> lp | Some mp \<Rightarrow> min lp (mp - 1))
           in case discover_loop e min_year (page_range last_page)
                     \<lparr>fetched = [ARCHIVES_ROOT], pages = []\<rparr> of
                (d, Some err) \<Rightarrow> (fetched d, Inl err)
              | (d, None) \<Rightarrow>
                  (fetched d, Inr (sorted_reverse sort_key_ym (set_iter e (pages d))))))"

section \<open>tools/apply_ccps_keyword_map.py: chunked\<close>

text \<open>
  \<^verbatim>\<open>[lst[i : i + n] for i in range(0, len(lst), n)]\<close>.
  \<open>chunks_from lst n i\<close> is the comprehension from index \<open>i\<close> on, for a positive
  step; \<open>range\<close> raises \<open>ValueError\<close> for a zero step and is empty for a negative one.
\<close>

function chunks_from :: "'a list \<Rightarrow> nat \<Rightarrow> nat \<Rightarrow> 'a list list" where
  "chunks_from lst n i =
     (if n = 0 \<or> length lst \<le> i then []
      else take n (drop i lst) # chunks_from lst n (i + n))"
  by pat_completeness auto
termination
  by (relation "measure (\<lambda>(lst, n, i). length lst - i)") auto

declare chunks_from.simps [simp del]

definition chunked :: "'a list \<Rightarrow> int \<Rightarrow> py_error + 'a list list" where
  "chunked lst n =
     (if n = 0 then Inl ValueError
      else if n < 0 then Inr []
      else Inr (chunks_from lst (nat n) 0))"

section \<open>String tests of the issue-page parser\<close>

text \<open>\<open>sub in s\<close>, \<open>s.endswith(suf)\<close>, \<open>s.strip()\<close> and \<open>sep.join(parts)\<close>.\<close>

fun contains :: "string \<Rightarrow> string \<Rightarrow> bool" where
  "contains sub [] = (sub = [])"
| "contains sub (c # cs) = (take (length sub) (c # cs) = sub \<or> contains sub cs)"

definition ends_with :: "string \<Rightarrow> string \<Rightarrow> bool" where
  "ends_with suf s = (length suf \<le> length s \<and> drop (length s - length suf) s = suf)"

definition is_space :: "char \<Rightarrow> bool" where
  "is_space c = (let k = (of_char c :: nat) in (9 \<le> k \<and> k \<le> 13) \<or> (28 \<le> k \<and> k \<le> 32))"

definition py_strip :: "string \<Rightarrow> string" where
  "py_strip s = rev (dropWhile is_space (rev (dropWhile is_space s)))"

fun py_join :: "string \<Rightarrow> string list \<Rightarrow> string" where
  "py_join sep [] = []"
| "py_join sep [p] = p"
| "py_join sep (p # q # ps) = p @ sep @ py_join sep (q # ps)"

section \<open>backend/collecter_past.py: the issue page, the PDF and its text\<close>

definition click_download :: "anchor \<Rightarrow> bool" where
  "click_download a =
     (let txt = lower (py_strip (a_text a)) in contains ''download'' txt \<and> contains ''click'' txt)"

definition pdf_href :: "anchor \<Rightarrow> bool" where
  "pdf_href a =
     (ends_with ''.pdf'' (lower (a_href a)) \<or> contains ''.pdf'' (lower (a_href a)))"

definition extract_pdf_url_from_english_page :: "env \<Rightarrow> string \<Rightarrow> string \<Rightarrow> string" where
  "extract_pdf_url_from_english_page e html base_url =
     (case find click_download (soup e html) of
        Some a \<Rightarrow> urljoin e (base_url @ ''/'') (a_href a)
      | None \<Rightarrow>
          (let candidates =
                 map (\<lambda>a. urljoin e (base_url @ ''/'') (a_href a))
                   (filter pdf_href (soup e html))
           in case candidates of [] \<Rightarrow> [] | c # cs \<Rightarrow> c))"

text \<open>
  Local files are a map from path to bytes. \<open>download_pdf\<close> returns the files and the
  exception it raises, if any.
\<close>

type_synonym files = "string \<Rightarrow> string option"

definition download_pdf :: "env \<Rightarrow> files \<Rightarrow> string \<Rightarrow> string \<Rightarrow> files \<times> py_error option" where
  "download_pdf e fs pdf_url out_path =
     (case http_get e pdf_url of
        Inl err \<Rightarrow> (fs, Some err)
      | Inr r \<Rightarrow>
          (case raise_for_status r of
             Some err \<Rightarrow> (fs, Some err)
           | None \<Rightarrow> (fs(out_path \<mapsto> body r), None)))"

text \<open>
  The two substitutions of \<open>extract_pdf_text\<close>: \<^verbatim>\<open>[ \t]+\n\<close> becomes a newline, and a run
  of three or more newlines becomes two.
\<close>

definition is_blank :: "char \<Rightarrow> bool" where
  "is_blank c = (c = CHR '' '' \<or> c = CHR 0x09)"

function sub_blank_newline :: "string \<Rightarrow> string" where
  "sub_blank_newline s =
     (if s = [] then []
      else
        (let run = takeWhile is_blank s; rest = dropWhile is_blank s in
         if run \<noteq> [] \<and> rest \<noteq> [] \<and> hd rest = CHR 0x0A
         then CHR 0x0A # sub_blank_newline (tl rest)
         else hd s # sub_blank_newline (tl s)))"
  by pat_completeness auto
termination
proof (relation "measure length")
  show "wf (measure length)" by simp
next
  fix s :: string and run rest
  assume "s \<noteq> []" and "rest = dropWhile is_blank s" and "run \<noteq> [] \<and> rest \<noteq> [] \<and> hd rest = CHR 0x0A"
  then have "length (tl rest) < length rest" by simp
  moreover have "length rest \<le> length s"
    using \<open>rest = dropWhile is_blank s\<close> by (simp add: length_dropWhile_le)
  ultimately show "(tl rest, s) \<in> measure length" by simp
next
  fix s :: string
  assume "s \<noteq> []"
  then show "(tl s, s) \<in> measure length" by simp
qed

declare sub_blank_newline.simps [simp del]

function sub_newlines :: "string \<Rightarrow> string" where
  "sub_newlines s =
     (if s = [] then []
      else
        (let run = takeWhile (\<lambda>c. c = CHR 0x0A) s; rest = dropWhile (\<lambda>c. c = CHR 0x0A) s in
         if 3 \<le> length run then CHR 0x0A # CHR 0x0A # sub_newlines rest
         else hd s # sub_newlines (tl s)))"
  by pat_completeness auto
termination
proof (relation "measure length")
  show "wf (measure length)" by simp
next
  fix s :: string and run rest
  assume "run = takeWhile (\<lambda>c. c = CHR 0x0A) s" and "rest = dropWhile (\<lambda>c. c = CHR 0x0A) s"
    and "3 \<le> length run"
  moreover have "length (takeWhile (\<lambda>c. c = CHR 0x0A) s) + length (dropWhile (\<lambda>c. c = CHR 0x0A) s) = length s"
    by (metis length_append takeWhile_dropWhile_id)
  ultimately show "(rest, s) \<in> measure length" by simp
next
  fix s :: string
  assume "s \<noteq> []"
  then show "(tl s, s) \<in> measure length" by simp
qed

declare sub_newlines.simps [simp del]

text \<open>
  \<open>read_pdf_text\<close> is the body of the \<open>try\<close> of \<open>extract_pdf_text\<close>: opening a missing
  file and every failure of PyPDF2 raise. \<open>extract_pdf_text\<close> is the whole function, with
  its \<open>except Exception\<close> that returns the empty string.
\<close>

definition read_pdf_text :: "env \<Rightarrow> files \<Rightarrow> string \<Rightarrow> py_error + string" where
  "read_pdf_text e fs pdf_path =
     (case fs pdf_path of
        None \<Rightarrow> Inl FileNotFoundError
      | Some data \<Rightarrow>
          (case pdf_page_texts e data of
             Inl err \<Rightarrow> Inl err
           | Inr texts \<Rightarrow>
               (let parts = map (\<lambda>t. case t of None \<Rightarrow> [] | Some x \<Rightarrow> x) texts;
                    text = py_strip (py_join [CHR 0x0A] parts)
                in Inr (sub_newlines (sub_blank_newline text)))))"

definition extract_pdf_text :: "env \<Rightarrow> files \<Rightarrow> string \<Rightarrow> string" where
  "extract_pdf_text e fs pdf_path =
     (case read_pdf_text e fs pdf_path of Inl err \<Rightarrow> [] | Inr text \<Rightarrow> text)"

section \<open>backend/collecter_past.py: the remote store\<close>

record payload =
  title :: string
  content :: "string option"
  source_page_url :: string
  source_pdf_url :: string
  published_year :: int
  published_month :: int
  pdf_bucket :: string
  pdf_path :: string

text \<open>
  Object storage maps (bucket, path) to bytes; the article table, with its unique index
  on \<open>source_page_url\<close>, maps that key to the row. Both calls return the store and the
  exception raised, if any.
\<close>

type_synonym object_store = "string \<times> string \<Rightarrow> string option"
type_synonym article_table = "string \<Rightarrow> payload option"

definition upload_pdf_to_storage ::
  "env \<Rightarrow> object_store \<Rightarrow> string \<Rightarrow> string \<Rightarrow> files \<Rightarrow> string \<Rightarrow> object_store \<times> py_error option" where
  "upload_pdf_to_storage e sto bucket object_path fs local_path =
     (case fs local_path of
        None \<Rightarrow> (sto, Some FileNotFoundError)
      | Some data \<Rightarrow>
          (case upload_error e object_path of
             Some err \<Rightarrow> (sto, Some err)
           | None \<Rightarrow> (sto((bucket, object_path) \<mapsto> data), None)))"

definition upsert_article :: "env \<Rightarrow> article_table \<Rightarrow> payload \<Rightarrow> article_table \<times> py_error option" where
  "upsert_article e tbl p =
     (case upsert_error e (source_page_url p) of
        Some err \<Rightarrow> (tbl, Some err)
      | None \<Rightarrow> (tbl(source_page_url p \<mapsto> p), None))"

section \<open>backend/collecter_past.py: the harvest loop\<close>

record args =
  arg_min_year :: int
  arg_max_pages :: "int option"
  arg_bucket :: string
  arg_force :: bool
  arg_limit :: "int option"

record skip_item =
  sk_url :: string
  sk_reason :: string
  sk_error :: "py_error option"

text \<open>
  The network and store operations the loop attempts, each tagged with the issue
  identifier it is attempted for.
\<close>

datatype event =
    EvFetch string
  | EvDownload string string
  | EvUpload string string
  | EvUpsert string

fun event_url :: "event \<Rightarrow> string" where
  "event_url (EvFetch u) = u"
| "event_url (EvDownload u pdf) = u"
| "event_url (EvUpload u path) = u"
| "event_url (EvUpsert u) = u"

text \<open>
  \<open>state.json\<close>: absent, unreadable as JSON, or an object whose
  \<open>processed_english_pages\<close> entry, if present, is a list.
\<close>

datatype state_json = NoFile | Unreadable | Loaded "string list option"

text \<open>
  The state of a run: the set \<open>processed\<close> (a duplicate-free list), the state file, the
  skip log, the downloaded files, the remote store, the counters, and the operations
  attempted so far.
\<close>

record run_state =
  processed :: "string list"
  state_file :: state_json
  skipped_log :: "skip_item list"
  local_files :: files
  storage :: object_store
  articles :: article_table
  done_count :: nat
  skipped_count :: nat
  events :: "event list"

definition load_state :: "state_json \<Rightarrow> string list option" where
  "load_state f = (case f of Loaded d \<Rightarrow> d | NoFile \<Rightarrow> Some [] | Unreadable \<Rightarrow> Some [])"

text \<open>
  \<open>processed.add(u); state["processed_english_pages"] = sorted(processed);
  save_state(state)\<close>.
\<close>

definition mark_processed :: "string \<Rightarrow> run_state \<Rightarrow> run_state" where
  "mark_processed u st =
     (let ps = set_add u (processed st)
      in st\<lparr>processed := ps, state_file := Loaded (Some (sort ps))\<rparr>)"

definition append_skipped :: "skip_item \<Rightarrow> run_state \<Rightarrow> run_state" where
  "append_skipped item st = st\<lparr>skipped_log := skipped_log st @ [item]\<rparr>"

text \<open>The \<open>except Exception\<close> branch of the loop body.\<close>

definition on_exception :: "string \<Rightarrow> py_error \<Rightarrow> run_state \<Rightarrow> run_state" where
  "on_exception u err st =
     append_skipped \<lparr>sk_url = u, sk_reason = ''exception'', sk_error = Some err\<rparr>
       (st\<lparr>skipped_count := skipped_count st + 1\<rparr>)"

definition log_event :: "event \<Rightarrow> run_state \<Rightarrow> run_state" where
  "log_event ev st = st\<lparr>events := events st @ [ev]\<rparr>"

definition pdf_filename :: "int \<Rightarrow> int \<Rightarrow> string" where
  "pdf_filename year month = str_nat (nat year) @ ''-'' @ fmt02 (nat month) @ ''-Beacon-English.pdf''"

definition object_path :: "int \<Rightarrow> int \<Rightarrow> string" where
  "object_path year month =
     ''beacon/'' @ str_nat (nat year) @ ''/'' @ fmt02 (nat month) @ ''/'' @ pdf_filename year month"

definition local_pdf :: "int \<Rightarrow> int \<Rightarrow> string" where
  "local_pdf year month = ''downloads/'' @ pdf_filename year month"

definition make_payload ::
  "args \<Rightarrow> string \<Rightarrow> string \<Rightarrow> string \<Rightarrow> string \<Rightarrow> int \<Rightarrow> int \<Rightarrow> payload" where
  "make_payload a ttl text english_url pdf_url year month =
     \<lparr>title = ttl,
      content = (if text = [] then None else Some text),
      source_page_url = english_url,
      source_pdf_url = pdf_url,
      published_year = year,
      published_month = month,
      pdf_bucket = arg_bucket a,
      pdf_path = object_path year month\<rparr>"

text \<open>
  One round of the loop for an identifier that is not passed over: the new state, and
  whether the loop breaks (the item limit is reached).
\<close>

definition process_page :: "env \<Rightarrow> args \<Rightarrow> run_state \<Rightarrow> string \<Rightarrow> run_state \<times> bool" where
  "process_page e a st english_url =
     (case parse_year_month_from_english_url english_url of
        None \<Rightarrow>
          (append_skipped \<lparr>sk_url = english_url, sk_reason = ''bad_ym'', sk_error = None\<rparr>
             (st\<lparr>skipped_count := skipped_count st + 1\<rparr>), False)
      | Some (year, month) \<Rightarrow>
          (let st1 = log_event (EvFetch english_url) st in
           case fetch e english_url of
             Inl err \<Rightarrow> (on_exception english_url err st1, False)
           | Inr html \<Rightarrow>
               (let t = page_title e html;
                    ttl = (if t = [] then ''Process Safety Beacon '' @ str_nat (nat year) @ ''-'' @ fmt02 (nat month)
                           else t);
                    pdf_url = extract_pdf_url_from_english_page e html english_url
                in
                if pdf_url = [] then
                  (mark_processed english_url
                     (append_skipped \<lparr>sk_url = english_url, sk_reason = ''no_pdf_url'', sk_error = None\<rparr>
                        (st1\<lparr>skipped_count := skipped_count st1 + 1\<rparr>)), False)
                else
                  (let st2 = log_event (EvDownload english_url pdf_url) st1 in
                   case download_pdf e (local_files st2) pdf_url (local_pdf year month) of
                     (fs, Some err) \<Rightarrow> (on_exception english_url err (st2\<lparr>local_files := fs\<rparr>), False)
                   | (fs, None) \<Rightarrow>
                       (let st3 = st2\<lparr>local_files := fs\<rparr>;
                            text = extract_pdf_text e fs (local_pdf year month);
                            st4 = log_event (EvUpload english_url (object_path year month)) st3
                        in
                        case upload_pdf_to_storage e (storage st4) (arg_bucket a)
                               (object_path year month) fs (local_pdf year month) of
                          (sto, Some err) \<Rightarrow> (on_exception english_url err (st4\<lparr>storage := sto\<rparr>), False)
                        | (sto, None) \<Rightarrow>
                            (let st5 = log_event (EvUpsert english_url) (st4\<lparr>storage := sto\<rparr>);
                                 p = make_payload a ttl text english_url pdf_url year month
                             in
                             case upsert_article e (articles st5) p of
                               (tbl, Some err) \<Rightarrow> (on_exception english_url err (st5\<lparr>articles := tbl\<rparr>), False)
                             | (tbl, None) \<Rightarrow>
                                 (let st6 = mark_processed english_url (st5\<lparr>articles := tbl\<rparr>);
                                      st7 = st6\<lparr>done_count := done_count st6 + 1\<rparr>
                                  in (st7, (case arg_limit a of
                                              None \<Rightarrow> False
                                            | Some l \<Rightarrow> l \<le> int (done_count st7))))))))))"

fun main_loop :: "env \<Rightarrow> args \<Rightarrow> string list \<Rightarrow> run_state \<Rightarrow> run_state" where
  "main_loop e a [] st = st"
| "main_loop e a (u # us) st =
     (if \<not> arg_force a \<and> u \<in> set (processed st) then main_loop e a us st
      else (case process_page e a st u of
              (st', stop) \<Rightarrow> if stop then st' else main_loop e a us st'))"

text \<open>
  \<open>main\<close> after the arguments and credentials are read: the state is loaded, the archive
  is discovered (an exception there ends the run), and the loop runs over the discovered
  identifiers. \<open>w\<close> holds the files and the remote store the run starts from.
\<close>

definition initial_state :: "run_state \<Rightarrow> run_state" where
  "initial_state w =
     w\<lparr>processed := remdups (case load_state (state_file w) of None \<Rightarrow> [] | Some xs \<Rightarrow> xs),
       done_count := 0, skipped_count := 0\<rparr>"

definition main :: "env \<Rightarrow> args \<Rightarrow> run_state \<Rightarrow> run_state \<times> py_error option" where
  "main e a w =
     (case discover_english_pages e (arg_min_year a) (arg_max_pages a) of
        (trace, Inl err) \<Rightarrow> (initial_state w, Some err)
      | (trace, Inr english_pages) \<Rightarrow> (main_loop e a english_pages (initial_state w), None))"

section \<open>tools/collecter_past.py: the issue page, the download and the text\<close>

text \<open>
  The functions of the second harvester carry the prefix \<open>tools_\<close> where the first one
  has a function of the same name. \<open>fetch_html\<close> returns the empty string on an HTTP
  error status; an exception of \<open>session.get\<close> itself is not caught.
\<close>

definition fetch_html :: "env \<Rightarrow> string \<Rightarrow> py_error + string" where
  "fetch_html e url =
     (case http_get e url of
        Inl err \<Rightarrow> Inl err
      | Inr r \<Rightarrow> (case raise_for_status r of Some err \<Rightarrow> Inr [] | None \<Rightarrow> Inr (body r)))"

definition tools_click_download :: "anchor \<Rightarrow> bool" where
  "tools_click_download a =
     (let text = lower (py_strip (a_text a)) in
      contains ''click here to download'' text
      \<or> (contains ''download'' text \<and> contains ''click'' text))"

definition beacon_english :: "string \<Rightarrow> bool" where
  "beacon_english u = (let lu = lower u in contains ''beacon'' lu \<and> contains ''english'' lu)"

definition tools_pdf_href :: "anchor \<Rightarrow> bool" where
  "tools_pdf_href a = ends_with ''.pdf'' (lower (a_href a))"

definition tools_pdf_candidates :: "env \<Rightarrow> string \<Rightarrow> string \<Rightarrow> string list" where
  "tools_pdf_candidates e html english_page_url =
     map (\<lambda>a. urljoin e (english_page_url @ ''/'') (a_href a))
       (filter tools_pdf_href (soup e html))"

definition tools_extract_pdf_url_from_english_page ::
  "env \<Rightarrow> string \<Rightarrow> py_error + string option" where
  "tools_extract_pdf_url_from_english_page e english_page_url =
     (case fetch_html e english_page_url of
        Inl err \<Rightarrow> Inl err
      | Inr html \<Rightarrow>
          Inr (case find tools_click_download (soup e html) of
                 Some a \<Rightarrow> Some (urljoin e (english_page_url @ ''/'') (a_href a))
               | None \<Rightarrow>
                   (let pdf_candidates = tools_pdf_candidates e html english_page_url in
                    case find beacon_english pdf_candidates of
                      Some u \<Rightarrow> Some u
                    | None \<Rightarrow> (case pdf_candidates of [] \<Rightarrow> None | c # cs \<Rightarrow> Some c))))"

text \<open>
  \<open>safe_filename_from_pdf_url\<close>: the text after the last slash, with every run of
  characters outside \<^verbatim>\<open>[A-Za-z0-9._-]\<close> replaced by one underscore.
\<close>

definition is_safe_char :: "char \<Rightarrow> bool" where
  "is_safe_char c =
     ((CHR ''A'' \<le> c \<and> c \<le> CHR ''Z'') \<or> (CHR ''a'' \<le> c \<and> c \<le> CHR ''z'')
      \<or> (CHR ''0'' \<le> c \<and> c \<le> CHR ''9'') \<or> c = CHR ''.'' \<or> c = CHR ''_'' \<or> c = CHR ''-'')"

function squash_unsafe :: "string \<Rightarrow> string" where
  "squash_unsafe s =
     (if s = [] then []
      else if is_safe_char (hd s) then hd s # squash_unsafe (tl s)
      else CHR ''_'' # squash_unsafe (dropWhile (\<lambda>c. \<not> is_safe_char c) s))"
  by pat_completeness auto
termination
proof (relation "measure length")
  show "wf (measure length)" by simp
next
  fix s :: string
  assume "s \<noteq> []" and "is_safe_char (hd s)"
  then show "(tl s, s) \<in> measure length" by simp
next
  fix s :: string
  assume ne: "s \<noteq> []" and unsafe: "\<not> is_safe_char (hd s)"
  then obtain c cs where s: "s = c # cs" by (cases s) auto
  with unsafe have "dropWhile (\<lambda>c. \<not> is_safe_char c) s = dropWhile (\<lambda>c. \<not> is_safe_char c) cs"
    by simp
  moreover have "length (dropWhile (\<lambda>c. \<not> is_safe_char c) cs) \<le> length cs"
    by (rule length_dropWhile_le)
  ultimately show "(dropWhile (\<lambda>c. \<not> is_safe_char c) s, s) \<in> measure length"
    using s by simp
qed

declare squash_unsafe.simps [simp del]

definition safe_filename_from_pdf_url :: "string \<Rightarrow> string" where
  "safe_filename_from_pdf_url pdf_url =
     squash_unsafe (rev (takeWhile (\<lambda>c. c \<noteq> CHR ''/'') (rev pdf_url)))"

text \<open>
  \<open>download_file\<close>: the files and either the exception of \<open>session.get\<close> or the boolean
  returned. The body is written chunk by chunk (\<open>iter_content\<close> with a chunk size of
  \<open>1024 * 256\<close>), empty chunks left out.
\<close>

definition download_file :: "env \<Rightarrow> files \<Rightarrow> string \<Rightarrow> string \<Rightarrow> files \<times> (py_error + bool)" where
  "download_file e fs url path =
     (case http_get e url of
        Inl err \<Rightarrow> (fs, Inl err)
      | Inr r \<Rightarrow>
          if status_code r \<noteq> 200 then (fs, Inr False)
          else
            (fs(path \<mapsto> concat (filter (\<lambda>chunk. chunk \<noteq> []) (chunks_from (body r) (1024 * 256) 0))),
             Inr True))"

definition tools_extract_pdf_text :: "env \<Rightarrow> files \<Rightarrow> string \<Rightarrow> py_error + string" where
  "tools_extract_pdf_text e fs path =
     (case fs path of
        None \<Rightarrow> Inl FileNotFoundError
      | Some data \<Rightarrow>
          (case pdf_page_texts e data of
             Inl err \<Rightarrow> Inl err
           | Inr texts \<Rightarrow>
               Inr (py_join [CHR 0x0A] (map (\<lambda>t. case t of None \<Rightarrow> [] | Some x \<Rightarrow> x) texts))))"

section \<open>tools/collecter_past.py: the backfill loop\<close>

record sidecar =
  sc_english_page_url :: string
  sc_pdf_url :: string
  sc_content :: string

record tools_skip =
  ts_english_page :: string
  ts_pdf_url :: "string option"
  ts_reason :: string

text \<open>
  The state of a backfill run: the set \<open>processed\<close> of PDF URLs, the list last saved to
  the state file, \<open>skipped_pages\<close>, the downloaded files and the JSON files written.
\<close>

record tools_state =
  t_processed :: "string list"
  t_state_file :: "string list"
  t_skipped_pages :: "tools_skip list"
  t_files :: files
  t_json_files :: "string \<Rightarrow> sidecar option"

definition json_path_of :: "string \<Rightarrow> string" where
  "json_path_of pdf = ''downloads/'' @ sub_all (=) ''.pdf'' ''.json'' (safe_filename_from_pdf_url pdf)"

definition tools_skip_page :: "tools_skip \<Rightarrow> tools_state \<Rightarrow> tools_state" where
  "tools_skip_page item st = st\<lparr>t_skipped_pages := t_skipped_pages st @ [item]\<rparr>"

text \<open>
  One round of the loop of \<open>run_backfill_and_update\<close>. An exception of \<open>download_file\<close>
  is caught nowhere and ends the run.
\<close>

definition backfill_step :: "env \<Rightarrow> tools_state \<Rightarrow> string \<Rightarrow> tools_state \<times> py_error option" where
  "backfill_step e st ep =
     (case tools_extract_pdf_url_from_english_page e ep of
        Inl err \<Rightarrow>
          (tools_skip_page \<lparr>ts_english_page = ep, ts_pdf_url = None,
                            ts_reason = ''page_fetch_or_parse_failed''\<rparr> st, None)
      | Inr None \<Rightarrow>
          (tools_skip_page \<lparr>ts_english_page = ep, ts_pdf_url = None, ts_reason = ''no_pdf_link''\<rparr> st,
           None)
      | Inr (Some pdf_url) \<Rightarrow>
          if pdf_url = [] then
            (tools_skip_page \<lparr>ts_english_page = ep, ts_pdf_url = None, ts_reason = ''no_pdf_link''\<rparr> st,
             None)
          else if pdf_url \<in> set (t_processed st) then (st, None)
          else
            (let pdf_name = safe_filename_from_pdf_url pdf_url;
                 local_path = ''downloads/'' @ pdf_name;
                 json_path = json_path_of pdf_url
             in
             case download_file e (t_files st) pdf_url local_path of
               (fs, Inl err) \<Rightarrow> (st\<lparr>t_files := fs\<rparr>, Some err)
             | (fs, Inr ok) \<Rightarrow>
                 (let st1 = st\<lparr>t_files := fs\<rparr> in
                  if \<not> ok then
                    (tools_skip_page \<lparr>ts_english_page = ep, ts_pdf_url = Some pdf_url,
                                      ts_reason = ''pdf_not_found''\<rparr> st1, None)
                  else
                    (case tools_extract_pdf_text e fs local_path of
                       Inl err \<Rightarrow>
                         (tools_skip_page \<lparr>ts_english_page = ep, ts_pdf_url = Some pdf_url,
                                           ts_reason = ''pdf_extract_failed''\<rparr> st1, None)
                     | Inr text \<Rightarrow>
                         (let st2 = st1\<lparr>t_json_files := (t_json_files st1)(json_path \<mapsto>
                                         \<lparr>sc_english_page_url = ep, sc_pdf_url = pdf_url,
                                          sc_content = text\<rparr>)\<rparr>;
                              ps = set_add pdf_url (t_processed st2)
                          in (st2\<lparr>t_processed := ps, t_state_file := sort ps\<rparr>, None))))))"

fun backfill_loop :: "env \<Rightarrow> string list \<Rightarrow> tools_state \<Rightarrow> tools_state \<times> py_error option" where
  "backfill_loop e [] st = (st, None)"
| "backfill_loop e (ep # eps) st =
     (case backfill_step e st ep of
        (st', Some err) \<Rightarrow> (st', Some err)
      | (st', None) \<Rightarrow> backfill_loop e eps st')"

section \<open>tools/apply_ccps_keyword_map.py: the keyword-mapping pass\<close>


text \<open>
  The REST server as the pass sees it: the rows \<open>(source_page_url, id)\<close> of the article
  table in the order it pages them, and the rows \<open>(name, id)\<close> it returns for a batch of
  keyword names. It answers every request (an HTTP error would raise and end the pass).
\<close>

record kw_server =
  article_table :: "(string option \<times> int) list"
  keyword_select :: "string list \<Rightarrow> (string \<times> int) list"
















section \<open>Conditions the properties are stated with\<close>

text \<open>
  \<open>stop_condition\<close> is the test of the two \<open>break\<close>s of \<open>discover_english_pages\<close> on
  listing page \<open>p\<close>: the page has no english link, or it has a link whose year and month
  parse and every such year is below the cutoff. \<open>claimed_stop_condition\<close> is the
  condition in the words of the specification, which does not ask for a link that parses.
\<close>

definition stop_condition :: "env \<Rightarrow> int \<Rightarrow> nat \<Rightarrow> bool" where
  "stop_condition e min_year p =
     (case fetch e (page_url p) of
        Inl err \<Rightarrow> False
      | Inr html \<Rightarrow>
          (let links = extract_english_links_from_archive_page e html in
           links = [] \<or>
           (years_in_page links \<noteq> [] \<and> (\<forall>y \<in> set (years_in_page links). y < min_year))))"

definition claimed_stop_condition :: "env \<Rightarrow> int \<Rightarrow> nat \<Rightarrow> bool" where
  "claimed_stop_condition e min_year p =
     (case fetch e (page_url p) of
        Inl err \<Rightarrow> False
      | Inr html \<Rightarrow>
          (let links = extract_english_links_from_archive_page e html in
           links = [] \<or> (\<forall>y \<in> set (years_in_page links). y < min_year)))"


text \<open>
  \<open>forget\<close> hides the progress set and the state file of a run state, to compare what two
  runs did apart from them.
\<close>

definition forget :: "run_state \<Rightarrow> run_state" where
  "forget st = st\<lparr>processed := [], state_file := NoFile\<rparr>"

text \<open>
  \<open>stored_ok st u\<close>: the article table has a row for \<open>u\<close> and object storage holds the
  PDF the row points to. \<open>no_pdf_logged st u\<close>: the skip log has an entry for \<open>u\<close> with
  the reason \<open>no_pdf_url\<close>.
\<close>

definition stored_ok :: "run_state \<Rightarrow> string \<Rightarrow> bool" where
  "stored_ok st u =
     (case articles st u of
        None \<Rightarrow> False
      | Some p \<Rightarrow> source_page_url p = u \<and> storage st (pdf_bucket p, pdf_path p) \<noteq> None)"

definition no_pdf_logged :: "run_state \<Rightarrow> string \<Rightarrow> bool" where
  "no_pdf_logged st u =
     (\<lparr>sk_url = u, sk_reason = ''no_pdf_url'', sk_error = None\<rparr> \<in> set (skipped_log st))"




text \<open>
  \<open>page_payload e a u\<close> is the row a round of the harvest loop for \<open>u\<close> sends to the
  article table. It is defined exactly when the round gets as far as the upsert: the
  year and month of \<open>u\<close> parse, the page is fetched, it yields a PDF URL, the PDF is
  downloaded and the upload is accepted. The text is extracted from the file the
  download has just written.
\<close>

definition page_payload :: "env \<Rightarrow> args \<Rightarrow> string \<Rightarrow> payload option" where
  "page_payload e a u =
     (case parse_year_month_from_english_url u of
        None \<Rightarrow> None
      | Some (year, month) \<Rightarrow>
          (case fetch e u of
             Inl err \<Rightarrow> None
           | Inr html \<Rightarrow>
               (let t = page_title e html;
                    ttl = (if t = [] then ''Process Safety Beacon '' @ str_nat (nat year) @ ''-'' @ fmt02 (nat month)
                           else t);
                    pdf_url = extract_pdf_url_from_english_page e html u
                in
                if pdf_url = [] then None
                else
                  (case http_get e pdf_url of
                     Inl err \<Rightarrow> None
                   | Inr r \<Rightarrow>
                       (case raise_for_status r of
                          Some err \<Rightarrow> None
                        | None \<Rightarrow>
                            (case upload_error e (object_path year month) of
                               Some err \<Rightarrow> None
                             | None \<Rightarrow>
                                 Some (make_payload a ttl
                                         (extract_pdf_text e
                                            (Map.empty(local_pdf year month \<mapsto> body r))
                                            (local_pdf year month))
                                         u pdf_url year month)))))))"

text \<open>
  \<open>loop_breaks e a us st\<close>: the harvest loop over \<open>us\<close> from \<open>st\<close> ends by its \<open>break\<close>,
  that is, the item limit stops it in the round of one of \<open>us\<close>.
\<close>

fun loop_breaks :: "env \<Rightarrow> args \<Rightarrow> string list \<Rightarrow> run_state \<Rightarrow> bool" where
  "loop_breaks e a [] st = False"
| "loop_breaks e a (u # us) st =
     (if \<not> arg_force a \<and> u \<in> set (processed st) then loop_breaks e a us st
      else (case process_page e a st u of
              (st', stop) \<Rightarrow> stop \<or> loop_breaks e a us st'))"

section \<open>A small archive\<close>

text \<open>
  An archive of three listing pages and two issues of 2021. Every link is absolute, so
  \<open>urljoin\<close> returns the link. The May issue has a "Click here to Download" link to a
  PDF that PyPDF2 cannot read; the April issue has no link to a PDF.
\<close>

definition may_url :: string where
  "may_url = ARCHIVES_ROOT @ ''/2021/may/english''"

definition april_url :: string where
  "april_url = ARCHIVES_ROOT @ ''/2021/april/english''"

definition example_env :: env where
  "example_env =
     \<lparr>http_get = (\<lambda>u.
         if u = ARCHIVES_ROOT then Inr \<lparr>status_code = 200, body = ''listing-0''\<rparr>
         else if u = ARCHIVES_ROOT @ ''?page=1'' then Inr \<lparr>status_code = 200, body = ''listing-1''\<rparr>
         else if u = ARCHIVES_ROOT @ ''?page=2'' then Inr \<lparr>status_code = 200, body = ''listing-2''\<rparr>
         else if u = may_url then Inr \<lparr>status_code = 200, body = ''issue-may''\<rparr>
         else if u = april_url then Inr \<lparr>status_code = 200, body = ''issue-april''\<rparr>
         else if u = ''https://cdn.example/may.pdf'' then Inr \<lparr>status_code = 200, body = ''%PDF-may''\<rparr>
         else Inr \<lparr>status_code = 404, body = []\<rparr>),
       soup = (\<lambda>html.
         if html = ''listing-0'' then
           [\<lparr>a_text = ''April 2021'', a_href = ARCHIVES_ROOT @ ''/2021/april/english''\<rparr>,
            \<lparr>a_text = ''May 2021'', a_href = ARCHIVES_ROOT @ ''/2021/may/english/''\<rparr>,
            \<lparr>a_text = ''May 2021 again'', a_href = ARCHIVES_ROOT @ ''/2021/may/english''\<rparr>,
            \<lparr>a_text = ''2'', a_href = ARCHIVES_ROOT @ ''?page=1''\<rparr>,
            \<lparr>a_text = ''3'', a_href = ARCHIVES_ROOT @ ''?page=2''\<rparr>]
         else if html = ''listing-1'' then
           [\<lparr>a_text = ''December 2019'', a_href = ARCHIVES_ROOT @ ''/2019/december/english''\<rparr>,
            \<lparr>a_text = ''Sept 2018'', a_href = ARCHIVES_ROOT @ ''/2018/sept/english''\<rparr>]
         else if html = ''listing-2'' then
           [\<lparr>a_text = ''May 2017'', a_href = ARCHIVES_ROOT @ ''/2017/may/english''\<rparr>]
         else if html = ''issue-may'' then
           [\<lparr>a_text = ''Archives'', a_href = ARCHIVES_ROOT\<rparr>,
            \<lparr>a_text = '' Click here to Download '', a_href = ''https://cdn.example/may.pdf''\<rparr>]
         else if html = ''issue-april'' then
           [\<lparr>a_text = ''Archives'', a_href = ARCHIVES_ROOT\<rparr>]
         else []),
       urljoin = (\<lambda>base href. href),
       query_page = (\<lambda>u.
         if u = ARCHIVES_ROOT @ ''?page=1'' then Some 1
         else if u = ARCHIVES_ROOT @ ''?page=2'' then Some 2 else None),
       set_iter = rev,
       page_title = (\<lambda>html. []),
       pdf_page_texts = (\<lambda>data. Inl PdfReadError),
       upload_error = (\<lambda>path. None),
       upsert_error = (\<lambda>url. None)\<rparr>"

text \<open>
  The same archive with a first listing page whose only issue link has a month name
  that is not in \<open>MONTHS\<close>.
\<close>

definition sept_env :: env where
  "sept_env =
     example_env\<lparr>soup := (\<lambda>html.
        if html = ''listing-0'' then
          [\<lparr>a_text = ''Sept 2019'', a_href = ARCHIVES_ROOT @ ''/2019/sept/english''\<rparr>,
           \<lparr>a_text = ''2'', a_href = ARCHIVES_ROOT @ ''?page=1''\<rparr>]
        else soup example_env html)\<rparr>"

definition example_args :: args where
  "example_args =
     \<lparr>arg_min_year = 2020, arg_max_pages = None, arg_bucket = ''ccps-pdfs'',
      arg_force = False, arg_limit = None\<rparr>"

text \<open>A first run starts with no state file, no files and an empty remote store.\<close>

definition empty_world :: run_state where
  "empty_world =
     \<lparr>processed = [], state_file = NoFile, skipped_log = [], local_files = Map.empty,
      storage = Map.empty, articles = Map.empty, done_count = 0, skipped_count = 0,
      events = []\<rparr>"

text \<open>
  An issue page whose two links to PDF files are relative file names: \<open>urljoin\<close> of the
  page URL with a trailing slash and such a name appends the name.
\<close>

definition relative_env :: env where
  "relative_env =
     example_env\<lparr>urljoin := (\<lambda>base href. base @ href),
       soup := (\<lambda>html.
         if html = ''issue-may'' then
           [\<lparr>a_text = ''Poster'', a_href = ''poster.pdf''\<rparr>,
            \<lparr>a_text = ''This issue'', a_href = ''Beacon-English.pdf''\<rparr>]
         else [])\<rparr>"

text \<open>A later run finds both issues in the state file.\<close>

definition seen_world :: run_state where
  "seen_world = empty_world\<lparr>state_file := Loaded (Some [may_url, april_url])\<rparr>"

definition force_args :: args where
  "force_args = example_args\<lparr>arg_force := True\<rparr>"

definition force_limit_args :: args where
  "force_limit_args = example_args\<lparr>arg_force := True, arg_limit := Some 1\<rparr>"




text \<open>
  An issue the archive does not have (the server answers 404), an archive whose PDF
  PyPDF2 can read, and the state a first backfill run of the tools harvester starts from.
\<close>

definition june_url :: string where
  "june_url = ARCHIVES_ROOT @ ''/2021/june/english''"

definition readable_env :: env where
  "readable_env = example_env\<lparr>pdf_page_texts := (\<lambda>data. Inr [Some ''Beacon'', None])\<rparr>"

definition empty_backfill :: tools_state where
  "empty_backfill =
     \<lparr>t_processed = [], t_state_file = [], t_skipped_pages = [], t_files = Map.empty,
      t_json_files = Map.empty\<rparr>"

definition force_limit5_args :: args where
  "force_limit5_args = example_args\<lparr>arg_force := True, arg_limit := Some 5\<rparr>"

section \<open>Properties of chunked\<close>

lemma chunks_from_done: "length lst \<le> i \<Longrightarrow> chunks_from lst n i = []"
  by (subst chunks_from.simps) simp

lemma chunks_from_step:
  "0 < n \<Longrightarrow> i < length lst \<Longrightarrow>
     chunks_from lst n i = take n (drop i lst) # chunks_from lst n (i + n)"
  by (subst chunks_from.simps) simp

lemma chunks_from_concat:
  "0 < n \<Longrightarrow> concat (chunks_from lst n i) = drop i lst"
proof (induction lst n i rule: chunks_from.induct)
  case (1 lst n i)
  show ?case
  proof (cases "length lst \<le> i")
    case True
    then show ?thesis by (simp add: chunks_from_done)
  next
    case False
    then have lt: "i < length lst" by simp
    have split: "take n (drop i lst) @ drop (i + n) lst = drop i lst"
      by (metis add.commute append_take_drop_id drop_drop)
    from 1 False have "concat (chunks_from lst n (i + n)) = drop (i + n) lst" by simp
    with split show ?thesis using chunks_from_step [OF "1.prems" lt] by simp
  qed
qed

lemma chunks_from_nonempty:
  "0 < n \<Longrightarrow> c \<in> set (chunks_from lst n i) \<Longrightarrow> c \<noteq> [] \<and> length c \<le> n"
proof (induction lst n i rule: chunks_from.induct)
  case (1 lst n i)
  show ?case
  proof (cases "length lst \<le> i")
    case True
    with "1.prems" show ?thesis by (simp add: chunks_from_done)
  next
    case False
    then have lt: "i < length lst" by simp
    from "1.prems" have pos: "0 < n" by simp
    from "1.prems"(2) chunks_from_step [OF pos lt]
    have "c = take n (drop i lst) \<or> c \<in> set (chunks_from lst n (i + n))" by simp
    then show ?thesis
    proof
      assume "c = take n (drop i lst)"
      with lt pos show ?thesis by simp
    next
      assume "c \<in> set (chunks_from lst n (i + n))"
      with "1.IH" False pos show ?thesis by simp
    qed
  qed
qed

lemma chunks_from_butlast:
  "0 < n \<Longrightarrow> c \<in> set (butlast (chunks_from lst n i)) \<Longrightarrow> length c = n"
proof (induction lst n i rule: chunks_from.induct)
  case (1 lst n i)
  show ?case
  proof (cases "length lst \<le> i")
    case True
    with "1.prems" show ?thesis by (simp add: chunks_from_done)
  next
    case False
    then have lt: "i < length lst" by simp
    from "1.prems" have pos: "0 < n" by simp
    note step = chunks_from_step [OF pos lt]
    show ?thesis
    proof (cases "length lst \<le> i + n")
      case True
      then have "chunks_from lst n (i + n) = []" by (rule chunks_from_done)
      with step "1.prems"(2) show ?thesis by simp
    next
      case far: False
      then have len: "length (take n (drop i lst)) = n" by simp
      from far pos have "chunks_from lst n (i + n) \<noteq> []"
        using chunks_from_step [of n "i + n" lst] by simp
      with step "1.prems"(2)
      have "c = take n (drop i lst) \<or> c \<in> set (butlast (chunks_from lst n (i + n)))"
        by simp
      then show ?thesis
      proof
        assume "c = take n (drop i lst)"
        with len show ?thesis by simp
      next
        assume "c \<in> set (butlast (chunks_from lst n (i + n)))"
        with "1.IH" False pos show ?thesis by simp
      qed
    qed
  qed
qed

text \<open>
  C9. For every list and every chunk size \<open>n > 0\<close>, \<open>chunked\<close> returns (it does not
  raise), the concatenation of the returned chunks in order is the input list, every chunk
  is non-empty, every chunk but the last has length exactly \<open>n\<close>, and the last has length
  at most \<open>n\<close>.
\<close>

theorem chunked_partition:
  assumes "0 < n"
  shows "\<exists>cs. chunked lst n = Inr cs \<and> concat cs = lst
           \<and> (\<forall>c \<in> set cs. c \<noteq> [])
           \<and> (\<forall>c \<in> set (butlast cs). int (length c) = n)
           \<and> (cs \<noteq> [] \<longrightarrow> int (length (last cs)) \<le> n)"
proof -
  let ?cs = "chunks_from lst (nat n) 0"
  from assms have pos: "0 < nat n" by simp
  have eq: "chunked lst n = Inr ?cs" using assms by (simp add: chunked_def)
  have c1: "concat ?cs = lst" using chunks_from_concat [OF pos, of lst 0] by simp
  have c2: "\<forall>c \<in> set ?cs. c \<noteq> []" using chunks_from_nonempty [OF pos] by blast
  have c3: "\<forall>c \<in> set (butlast ?cs). int (length c) = n"
  proof
    fix c assume "c \<in> set (butlast ?cs)"
    then have "length c = nat n" by (rule chunks_from_butlast [OF pos])
    with assms show "int (length c) = n" by simp
  qed
  have c4: "?cs \<noteq> [] \<longrightarrow> int (length (last ?cs)) \<le> n"
  proof
    assume "?cs \<noteq> []"
    then have "last ?cs \<in> set ?cs" by (rule last_in_set)
    then have "length (last ?cs) \<le> nat n" using chunks_from_nonempty [OF pos] by blast
    then show "int (length (last ?cs)) \<le> n" using assms by linarith
  qed
  from eq c1 c2 c3 c4 show ?thesis by blast
qed

theorem chunked_partition_witness:
  "(0::int) < 2 \<and> chunked [1, 2, 3, 4, 5 :: nat] 2 = Inr [[1, 2], [3, 4], [5]]
     \<and> concat [[1, 2], [3, 4], [5]] = [1, 2, 3, 4, 5 :: nat]"
proof -
  have h: "(0::int) < 2" by simp
  from chunked_partition [OF h, of "[1, 2, 3, 4, 5 :: nat]"]
  obtain cs where cs: "chunked [1, 2, 3, 4, 5 :: nat] 2 = Inr cs"
    and cat: "concat cs = [1, 2, 3, 4, 5 :: nat]" by blast
  have ev: "chunked [1, 2, 3, 4, 5 :: nat] 2 = Inr [[1, 2], [3, 4], [5]]"
    by code_simp
  from cs ev have "cs = [[1, 2], [3, 4], [5]]" by simp
  with cat have "concat [[1, 2], [3, 4], [5]] = [1, 2, 3, 4, 5 :: nat]" by simp
  with h ev show ?thesis by blast
qed

section \<open>Properties of clean_text\<close>

lemma sub_all_delete_subset: "set (sub_all eq pat [] s) \<subseteq> set s"
proof (induction eq pat "[] :: string" s rule: sub_all.induct)
  case (1 eq pat s)
  show ?case
  proof (cases "pat = [] \<or> s = []")
    case True
    then show ?thesis by (subst sub_all.simps) simp
  next
    case False
    then obtain c cs where s: "s = c # cs" by (cases s) auto
    show ?thesis
    proof (cases "starts_with eq pat s")
      case True
      with 1 False have "set (sub_all eq pat [] (drop (length pat) s)) \<subseteq> set (drop (length pat) s)"
        by simp
      moreover have "set (drop (length pat) s) \<subseteq> set s" by (rule set_drop_subset)
      ultimately show ?thesis using True False by (subst sub_all.simps) auto
    next
      case nm: False
      with 1 False have "set (sub_all eq pat [] (tl s)) \<subseteq> set (tl s)" by simp
      with s nm False show ?thesis by (subst sub_all.simps) auto
    qed
  qed
qed

lemma sub_all_single_removed:
  "c \<notin> set rep \<Longrightarrow> c \<notin> set (sub_all (=) [c] rep s)"
proof (induction "(=) :: char \<Rightarrow> char \<Rightarrow> bool" "[c]" rep s rule: sub_all.induct)
  case (1 rep s)
  show ?case
  proof (cases s)
    case Nil
    then show ?thesis by (subst sub_all.simps) simp
  next
    case (Cons d ds)
    show ?thesis
    proof (cases "starts_with (=) [c] s")
      case True
      with 1 Cons have "c \<notin> set (sub_all (=) [c] rep (drop (length [c]) s))" by simp
      with True Cons "1.prems" show ?thesis by (subst sub_all.simps) simp
    next
      case False
      with Cons have "d \<noteq> c" by (auto simp: starts_with_def)
      moreover from 1 Cons False have "c \<notin> set (sub_all (=) [c] rep (tl s))" by simp
      ultimately show ?thesis using False Cons by (subst sub_all.simps) simp
    qed
  qed
qed

lemma clean_text_no_control: "c \<in> set (clean_text s0) \<Longrightarrow> \<not> is_control c"
  by (cases s0) (auto simp: clean_text_def Let_def is_control_def split: if_splits)

lemma clean_text_no_NUL: "CHR 0x00 \<notin> set (clean_text s0)"
  using clean_text_no_control [of "CHR 0x00" s0] by (auto simp: is_control_def)

lemma clean_text_no_CR: "CHR 0x0D \<notin> set (clean_text s0)"
proof (cases s0)
  case None
  then show ?thesis by (simp add: clean_text_def)
next
  case (Some s)
  let ?s1 = "sub_all (=) [CHR 0x0D] [CHR 0x0A] (sub_all (=) [CHR 0x0D, CHR 0x0A] [CHR 0x0A] s)"
  have "CHR 0x0D \<notin> set ?s1" by (rule sub_all_single_removed) simp
  then have "CHR 0x0D \<notin> set (sub_all eq_ignorecase esc_u0000 [] (sub_all (=) [CHR 0x00] [] ?s1))"
    using sub_all_delete_subset by blast
  then show ?thesis using Some by (auto simp: clean_text_def Let_def split: if_splits)
qed

text \<open>
  C10. The claim that the result of \<open>clean_text\<close> never contains the escape sequence
  backslash-u0000 fails: the substitution is a single pass, so deleting an occurrence can
  join its two neighbours into a new one. On the twelve characters
  backslash u 0 0 backslash u 0 0 0 0 0 0 the result is exactly that escape sequence.
  (The other parts of the claim hold: \<open>clean_text_no_NUL\<close>, \<open>clean_text_no_control\<close>,
  \<open>clean_text_no_CR\<close>.)
\<close>

theorem clean_text_escape_survives:
  "clean_text (Some (CHR 0x5C # ''u00'' @ CHR 0x5C # ''u000000'')) = CHR 0x5C # ''u0000''"
  by code_simp

section \<open>Properties of archive discovery\<close>














lemma discover_loop_continue:
  assumes "\<not> stop_condition e min_year p" and "fetch e (page_url p) = Inr html"
  shows "discover_loop e min_year (p # ps) d =
         discover_loop e min_year ps
           (d\<lparr>fetched := fetched d @ [page_url p],
              pages := foldl (\<lambda>acc u. set_add u acc) (pages d)
                         (kept_links min_year (extract_english_links_from_archive_page e html))\<rparr>)"
proof -
  let ?links = "extract_english_links_from_archive_page e html"
  from assms have ne: "?links \<noteq> []"
    and ny: "years_in_page ?links = [] \<or> \<not> (\<forall>y \<in> set (years_in_page ?links). y < min_year)"
    by (auto simp: stop_condition_def Let_def)
  from ny have "\<not> (years_in_page ?links \<noteq> [] \<and> Max (set (years_in_page ?links)) < min_year)"
    by auto
  with ne assms(2) show ?thesis by (auto simp: Let_def)
qed

lemma discover_loop_halt:
  assumes "stop_condition e min_year p \<or> (\<exists>err. fetch e (page_url p) = Inl err)"
  shows "fetched (fst (discover_loop e min_year (p # ps) d)) = fetched d @ [page_url p]"
proof (cases "fetch e (page_url p)")
  case (Inl err)
  then show ?thesis by simp
next
  case (Inr html)
  let ?links = "extract_english_links_from_archive_page e html"
  from assms Inr have st: "?links = [] \<or>
      (years_in_page ?links \<noteq> [] \<and> (\<forall>y \<in> set (years_in_page ?links). y < min_year))"
    by (auto simp: stop_condition_def Let_def)
  show ?thesis
  proof (cases "?links = []")
    case True
    with Inr show ?thesis by simp
  next
    case False
    with st have "years_in_page ?links \<noteq> [] \<and> Max (set (years_in_page ?links)) < min_year"
      by auto
    with Inr False show ?thesis by (simp add: Let_def)
  qed
qed

lemma discover_loop_trace:
  "\<exists>k \<le> length xs.
     fetched (fst (discover_loop e min_year xs d)) = fetched d @ map page_url (take k xs)
     \<and> (\<forall>i < length xs. stop_condition e min_year (xs ! i) \<longrightarrow> k \<le> Suc i)"
proof (induction xs arbitrary: d)
  case Nil
  show ?case by simp
next
  case (Cons p ps)
  show ?case
  proof (cases "stop_condition e min_year p \<or> (\<exists>err. fetch e (page_url p) = Inl err)")
    case True
    from discover_loop_halt [OF True]
    have "fetched (fst (discover_loop e min_year (p # ps) d)) = fetched d @ map page_url (take 1 (p # ps))"
      by simp
    then show ?thesis by (intro exI [of _ 1]) simp
  next
    case False
    then obtain html where html: "fetch e (page_url p) = Inr html" and ns: "\<not> stop_condition e min_year p"
      by (cases "fetch e (page_url p)") auto
    let ?d2 = "d\<lparr>fetched := fetched d @ [page_url p],
              pages := foldl (\<lambda>acc u. set_add u acc) (pages d)
                         (kept_links min_year (extract_english_links_from_archive_page e html))\<rparr>"
    from Cons.IH [of ?d2] obtain k where k: "k \<le> length ps"
      and tr: "fetched (fst (discover_loop e min_year ps ?d2)) = fetched ?d2 @ map page_url (take k ps)"
      and st: "\<forall>i < length ps. stop_condition e min_year (ps ! i) \<longrightarrow> k \<le> Suc i"
      by blast
    have run: "discover_loop e min_year (p # ps) d = discover_loop e min_year ps ?d2"
      by (rule discover_loop_continue [OF ns html])
    have "fetched (fst (discover_loop e min_year (p # ps) d))
            = fetched d @ map page_url (take (Suc k) (p # ps))"
      using run tr by simp
    moreover have "\<forall>i < length (p # ps). stop_condition e min_year ((p # ps) ! i) \<longrightarrow> Suc k \<le> Suc i"
    proof (intro allI impI)
      fix i assume i: "i < length (p # ps)" and s: "stop_condition e min_year ((p # ps) ! i)"
      show "Suc k \<le> Suc i"
      proof (cases i)
        case 0
        with s ns show ?thesis by simp
      next
        case (Suc j)
        with i s st show ?thesis by simp
      qed
    qed
    ultimately show ?thesis using k by (intro exI [of _ "Suc k"]) simp
  qed
qed

text \<open>
  C5 (as amended). If listing page \<open>p\<close> is fetched without error and either yields no
  english link, or yields at least one link whose year and month parse with every such
  year below the cutoff, then discovery requests the archive root and, after it, only
  listing pages up to \<open>p\<close>: the requests are the root followed by the pages
  \<open>0, ..., k - 1\<close> for some \<open>k \<le> p + 1\<close>.
\<close>

theorem discovery_stops_at_cutoff:
  assumes "stop_condition e min_year p"
  shows "\<exists>k \<le> p + 1.
           fst (discover_english_pages e min_year max_pages) = ARCHIVES_ROOT # map page_url [0 ..< k]"
proof (cases "fetch e ARCHIVES_ROOT")
  case (Inl err)
  then have "fst (discover_english_pages e min_year max_pages) = ARCHIVES_ROOT # map page_url [0 ..< 0]"
    by (simp add: discover_english_pages_def)
  then show ?thesis by blast
next
  case (Inr first_html)
  define last_page where "last_page =
     (case max_pages of None \<Rightarrow> parse_last_page_num e first_html
      | Some mp \<Rightarrow> min (parse_last_page_num e first_html) (mp - 1))"
  define n where "n = nat (last_page + 1)"
  define d0 where "d0 = \<lparr>fetched = [ARCHIVES_ROOT], pages = []\<rparr>"
  from discover_loop_trace [of "[0 ..< n]" e min_year d0]
  obtain k where k: "k \<le> n"
    and tr: "fetched (fst (discover_loop e min_year [0 ..< n] d0)) = fetched d0 @ map page_url (take k [0 ..< n])"
    and st: "\<forall>i < n. stop_condition e min_year ([0 ..< n] ! i) \<longrightarrow> k \<le> Suc i"
    by auto
  from k have tk: "take k [0 ..< n] = [0 ..< k]" by (simp add: take_upt)
  have kp: "k \<le> p + 1"
  proof (cases "p < n")
    case True
    with st assms show ?thesis by auto
  next
    case False
    with k show ?thesis by simp
  qed
  have "fst (discover_english_pages e min_year max_pages)
          = fetched (fst (discover_loop e min_year [0 ..< n] d0))"
    using Inr
    by (simp add: discover_english_pages_def page_range_def Let_def last_page_def n_def d0_def
             split: prod.splits option.splits)
  with tr tk have "fst (discover_english_pages e min_year max_pages) = ARCHIVES_ROOT # map page_url [0 ..< k]"
    by (simp add: d0_def)
  with kp show ?thesis by blast
qed

theorem discovery_stops_at_cutoff_witness:
  "stop_condition example_env 2020 1
   \<and> fst (discover_english_pages example_env 2020 None)
       = ARCHIVES_ROOT # map page_url [0 ..< 2]"
proof -
  have h: "stop_condition example_env 2020 1" by code_simp
  from discovery_stops_at_cutoff [OF h, of None]
  obtain k where k: "k \<le> 1 + 1"
    and tr: "fst (discover_english_pages example_env 2020 None) = ARCHIVES_ROOT # map page_url [0 ..< k]"
    by blast
  have "length (fst (discover_english_pages example_env 2020 None)) = 3"
    by code_simp
  then have "length (ARCHIVES_ROOT # map page_url [0 ..< k]) = 3" by (simp only: tr)
  then have "k = 2" by simp
  with tr h show ?thesis by simp
qed

text \<open>
  The claim as stated fails: on the first listing page of \<open>sept_env\<close> no link parses, so
  every parsable link's year is below the cutoff, and discovery goes on to page 1.
\<close>

theorem discovery_continues_without_parsable_link:
  "claimed_stop_condition sept_env 2020 0
   \<and> fst (discover_english_pages sept_env 2020 None)
       = [ARCHIVES_ROOT, page_url 0, page_url 1]"
  by code_simp



section \<open>Properties of the PDF download\<close>

lemma concat_filter_nonempty: "concat (filter (\<lambda>c. c \<noteq> []) cs) = concat cs"
  by (induction cs) auto

lemma download_file_200:
  assumes "http_get e url = Inr r" and "status_code r = 200"
  shows "download_file e fs url path = (fs(path \<mapsto> body r), Inr True)"
proof -
  have "concat (filter (\<lambda>chunk. chunk \<noteq> []) (chunks_from (body r) (1024 * 256) 0)) = body r"
    using chunks_from_concat [of "1024 * 256" "body r" 0] by (simp add: concat_filter_nonempty)
  with assms show ?thesis by (simp add: download_file_def)
qed

text \<open>
  C7 (as amended). When the server answers the request for the PDF: \<open>download_file\<close>
  (tools) returns \<open>False\<close> without raising and without writing for every status other
  than 200, and on status 200 writes the body to the local file and returns \<open>True\<close>;
  \<open>download_pdf\<close> (backend) raises \<open>HTTPError\<close> without writing for the statuses 400 to
  599, and for every other status writes the body and returns.
\<close>

theorem download_status_handling:
  assumes "http_get e url = Inr r"
  shows "(status_code r \<noteq> 200 \<longrightarrow> download_file e fs url path = (fs, Inr False))
       \<and> (status_code r = 200 \<longrightarrow> download_file e fs url path = (fs(path \<mapsto> body r), Inr True))
       \<and> (400 \<le> status_code r \<and> status_code r < 600 \<longrightarrow>
            download_pdf e fs url path = (fs, Some (HTTPError (status_code r))))
       \<and> (\<not> (400 \<le> status_code r \<and> status_code r < 600) \<longrightarrow>
            download_pdf e fs url path = (fs(path \<mapsto> body r), None))"
proof -
  have f1: "status_code r \<noteq> 200 \<longrightarrow> download_file e fs url path = (fs, Inr False)"
    using assms by (simp add: download_file_def)
  have f2: "status_code r = 200 \<longrightarrow> download_file e fs url path = (fs(path \<mapsto> body r), Inr True)"
    using download_file_200 [OF assms] by simp
  have p1: "400 \<le> status_code r \<and> status_code r < 600 \<longrightarrow>
            download_pdf e fs url path = (fs, Some (HTTPError (status_code r)))"
    using assms by (simp add: download_pdf_def raise_for_status_def)
  have p2: "\<not> (400 \<le> status_code r \<and> status_code r < 600) \<longrightarrow>
            download_pdf e fs url path = (fs(path \<mapsto> body r), None)"
    using assms by (auto simp: download_pdf_def raise_for_status_def)
  from f1 f2 p1 p2 show ?thesis by blast
qed

theorem download_status_handling_witness:
  "http_get example_env ''https://cdn.example/may.pdf'' = Inr \<lparr>status_code = 200, body = ''%PDF-may''\<rparr>
   \<and> download_file example_env Map.empty ''https://cdn.example/may.pdf'' ''downloads/may.pdf''
       = (Map.empty(''downloads/may.pdf'' \<mapsto> ''%PDF-may''), Inr True)
   \<and> download_pdf example_env Map.empty ''https://cdn.example/may.pdf'' ''downloads/may.pdf''
       = (Map.empty(''downloads/may.pdf'' \<mapsto> ''%PDF-may''), None)
   \<and> http_get example_env ''https://cdn.example/gone.pdf'' = Inr \<lparr>status_code = 404, body = []\<rparr>
   \<and> download_file example_env Map.empty ''https://cdn.example/gone.pdf'' ''downloads/gone.pdf''
       = (Map.empty, Inr False)"
proof -
  have h1: "http_get example_env ''https://cdn.example/may.pdf'' = Inr \<lparr>status_code = 200, body = ''%PDF-may''\<rparr>"
    by code_simp
  have h2: "http_get example_env ''https://cdn.example/gone.pdf'' = Inr \<lparr>status_code = 404, body = []\<rparr>"
    by code_simp
  from download_status_handling [OF h1, of Map.empty "''downloads/may.pdf''"]
       download_status_handling [OF h2, of Map.empty "''downloads/gone.pdf''"] h1 h2
  show ?thesis by simp
qed

text \<open>
  The claim as stated fails for the backend retriever: on a response with status 404
  \<open>download_pdf\<close> raises instead of returning false.
\<close>

theorem download_pdf_raises_on_404:
  "http_get example_env ''https://cdn.example/gone.pdf'' = Inr \<lparr>status_code = 404, body = []\<rparr>
   \<and> snd (download_pdf example_env Map.empty ''https://cdn.example/gone.pdf'' ''downloads/gone.pdf'')
       = Some (HTTPError 404)"
  by code_simp

section \<open>Properties of the PDF-URL extractors\<close>

lemma find_first_index:
  "i < length xs \<Longrightarrow> P (xs ! i) \<Longrightarrow> \<forall>j<i. \<not> P (xs ! j) \<Longrightarrow> find P xs = Some (xs ! i)"
  by (auto simp: find_Some_iff)

lemma find_no_match: "\<forall>a \<in> set xs. \<not> P a \<Longrightarrow> find P xs = None"
  by (simp add: find_None_iff)

lemma first_candidate_find:
  "(case map f (filter P xs) of [] \<Rightarrow> d | c # cs \<Rightarrow> g c)
     = (case find P xs of None \<Rightarrow> d | Some a \<Rightarrow> g (f a))"
  by (induction xs) auto

text \<open>
  C3 (as amended). With \<open>as\<close> the anchors of the issue page in document order:
  in both variants the first anchor whose text, lower-cased, contains both "click" and
  "download" decides, and its href resolved against the page URL is returned. Without
  such an anchor the backend variant returns the resolved href of the first anchor whose
  lower-cased href ends with or contains ".pdf", and the empty string when there is none.
  Without such an anchor the tools variant takes as candidates the resolved hrefs of the
  anchors whose lower-cased href ends with ".pdf", and returns the first candidate whose
  resolved URL, lower-cased, contains both "beacon" and "english", else the first
  candidate, else \<open>None\<close>.
\<close>

theorem pdf_url_first_match:
  assumes "as = soup e html" and "cs = tools_pdf_candidates e html base" and "fetch_html e base = Inr html"
  shows
    "(i < length as \<and> click_download (as ! i) \<and> (\<forall>j<i. \<not> click_download (as ! j)) \<longrightarrow>
        extract_pdf_url_from_english_page e html base = urljoin e (base @ ''/'') (a_href (as ! i)))
     \<and> ((\<forall>a \<in> set as. \<not> click_download a) \<and> i < length as \<and> pdf_href (as ! i)
          \<and> (\<forall>j<i. \<not> pdf_href (as ! j)) \<longrightarrow>
        extract_pdf_url_from_english_page e html base = urljoin e (base @ ''/'') (a_href (as ! i)))
     \<and> ((\<forall>a \<in> set as. \<not> click_download a \<and> \<not> pdf_href a) \<longrightarrow>
        extract_pdf_url_from_english_page e html base = [])
     \<and> (i < length as \<and> tools_click_download (as ! i) \<and> (\<forall>j<i. \<not> tools_click_download (as ! j)) \<longrightarrow>
        tools_extract_pdf_url_from_english_page e base
          = Inr (Some (urljoin e (base @ ''/'') (a_href (as ! i)))))
     \<and> ((\<forall>a \<in> set as. \<not> tools_click_download a) \<and> k < length cs \<and> beacon_english (cs ! k)
          \<and> (\<forall>j<k. \<not> beacon_english (cs ! j)) \<longrightarrow>
        tools_extract_pdf_url_from_english_page e base = Inr (Some (cs ! k)))
     \<and> ((\<forall>a \<in> set as. \<not> tools_click_download a) \<and> (\<forall>u \<in> set cs. \<not> beacon_english u) \<longrightarrow>
        tools_extract_pdf_url_from_english_page e base
          = Inr (case cs of [] \<Rightarrow> None | c # rest \<Rightarrow> Some c))"
proof -
  have b1: "i < length as \<and> click_download (as ! i) \<and> (\<forall>j<i. \<not> click_download (as ! j)) \<longrightarrow>
        extract_pdf_url_from_english_page e html base = urljoin e (base @ ''/'') (a_href (as ! i))"
  proof
    assume "i < length as \<and> click_download (as ! i) \<and> (\<forall>j<i. \<not> click_download (as ! j))"
    then have "find click_download as = Some (as ! i)" by (simp add: find_first_index)
    then show "extract_pdf_url_from_english_page e html base = urljoin e (base @ ''/'') (a_href (as ! i))"
      using assms(1) by (simp add: extract_pdf_url_from_english_page_def)
  qed
  have fallback: "find click_download as = None \<Longrightarrow>
      extract_pdf_url_from_english_page e html base
        = (case find pdf_href as of None \<Rightarrow> [] | Some a \<Rightarrow> urljoin e (base @ ''/'') (a_href a))"
    using assms(1) first_candidate_find [of "[]" "\<lambda>c. c" "\<lambda>a. urljoin e (base @ ''/'') (a_href a)" pdf_href as]
    by (simp add: extract_pdf_url_from_english_page_def)
  have b2: "(\<forall>a \<in> set as. \<not> click_download a) \<and> i < length as \<and> pdf_href (as ! i)
          \<and> (\<forall>j<i. \<not> pdf_href (as ! j)) \<longrightarrow>
        extract_pdf_url_from_english_page e html base = urljoin e (base @ ''/'') (a_href (as ! i))"
  proof
    assume h: "(\<forall>a \<in> set as. \<not> click_download a) \<and> i < length as \<and> pdf_href (as ! i)
          \<and> (\<forall>j<i. \<not> pdf_href (as ! j))"
    then have "find click_download as = None" by (simp add: find_no_match)
    moreover from h have "find pdf_href as = Some (as ! i)" by (simp add: find_first_index)
    ultimately show "extract_pdf_url_from_english_page e html base = urljoin e (base @ ''/'') (a_href (as ! i))"
      by (simp add: fallback)
  qed
  have b3: "(\<forall>a \<in> set as. \<not> click_download a \<and> \<not> pdf_href a) \<longrightarrow>
        extract_pdf_url_from_english_page e html base = []"
  proof
    assume h: "\<forall>a \<in> set as. \<not> click_download a \<and> \<not> pdf_href a"
    then have "find click_download as = None" and "find pdf_href as = None"
      by (simp_all add: find_no_match)
    then show "extract_pdf_url_from_english_page e html base = []" by (simp add: fallback)
  qed
  have t1: "i < length as \<and> tools_click_download (as ! i) \<and> (\<forall>j<i. \<not> tools_click_download (as ! j)) \<longrightarrow>
        tools_extract_pdf_url_from_english_page e base
          = Inr (Some (urljoin e (base @ ''/'') (a_href (as ! i))))"
  proof
    assume "i < length as \<and> tools_click_download (as ! i) \<and> (\<forall>j<i. \<not> tools_click_download (as ! j))"
    then have "find tools_click_download as = Some (as ! i)" by (simp add: find_first_index)
    then show "tools_extract_pdf_url_from_english_page e base
          = Inr (Some (urljoin e (base @ ''/'') (a_href (as ! i))))"
      using assms by (simp add: tools_extract_pdf_url_from_english_page_def)
  qed
  have t2: "(\<forall>a \<in> set as. \<not> tools_click_download a) \<and> k < length cs \<and> beacon_english (cs ! k)
          \<and> (\<forall>j<k. \<not> beacon_english (cs ! j)) \<longrightarrow>
        tools_extract_pdf_url_from_english_page e base = Inr (Some (cs ! k))"
  proof
    assume h: "(\<forall>a \<in> set as. \<not> tools_click_download a) \<and> k < length cs \<and> beacon_english (cs ! k)
          \<and> (\<forall>j<k. \<not> beacon_english (cs ! j))"
    then have "find tools_click_download as = None" by (simp add: find_no_match)
    moreover from h have "find beacon_english cs = Some (cs ! k)" by (simp add: find_first_index)
    ultimately show "tools_extract_pdf_url_from_english_page e base = Inr (Some (cs ! k))"
      using assms by (simp add: tools_extract_pdf_url_from_english_page_def)
  qed
  have t3: "(\<forall>a \<in> set as. \<not> tools_click_download a) \<and> (\<forall>u \<in> set cs. \<not> beacon_english u) \<longrightarrow>
        tools_extract_pdf_url_from_english_page e base
          = Inr (case cs of [] \<Rightarrow> None | c # rest \<Rightarrow> Some c)"
  proof
    assume h: "(\<forall>a \<in> set as. \<not> tools_click_download a) \<and> (\<forall>u \<in> set cs. \<not> beacon_english u)"
    then have "find tools_click_download as = None" and "find beacon_english cs = None"
      by (simp_all add: find_no_match)
    then show "tools_extract_pdf_url_from_english_page e base
          = Inr (case cs of [] \<Rightarrow> None | c # rest \<Rightarrow> Some c)"
      using assms by (simp add: tools_extract_pdf_url_from_english_page_def)
  qed
  from b1 b2 b3 t1 t2 t3 show ?thesis by blast
qed

theorem pdf_url_first_match_witness:
  "extract_pdf_url_from_english_page example_env ''issue-may'' may_url = ''https://cdn.example/may.pdf''
   \<and> tools_extract_pdf_url_from_english_page example_env may_url = Inr (Some ''https://cdn.example/may.pdf'')
   \<and> extract_pdf_url_from_english_page relative_env ''issue-may'' may_url = may_url @ ''/poster.pdf''"
proof -
  let ?a0 = "\<lparr>a_text = ''Archives'', a_href = ARCHIVES_ROOT\<rparr>"
  let ?a1 = "\<lparr>a_text = '' Click here to Download '', a_href = ''https://cdn.example/may.pdf''\<rparr>"
  have as: "soup example_env ''issue-may'' = [?a0, ?a1]" by code_simp
  have fh: "fetch_html example_env may_url = Inr ''issue-may''" by code_simp
  have c0: "\<not> click_download ?a0" "\<not> tools_click_download ?a0" by code_simp+
  have c1: "click_download ?a1" "tools_click_download ?a1" by code_simp+
  have uj: "urljoin example_env (may_url @ ''/'') ''https://cdn.example/may.pdf'' = ''https://cdn.example/may.pdf''"
    by (simp add: example_env_def)
  note inst = pdf_url_first_match [OF as [symmetric] refl fh, of 1 0]
  from inst c0 c1 uj
  have r1: "extract_pdf_url_from_english_page example_env ''issue-may'' may_url = ''https://cdn.example/may.pdf''"
    and r2: "tools_extract_pdf_url_from_english_page example_env may_url = Inr (Some ''https://cdn.example/may.pdf'')"
    by simp_all
  let ?p0 = "\<lparr>a_text = ''Poster'', a_href = ''poster.pdf''\<rparr>"
  let ?p1 = "\<lparr>a_text = ''This issue'', a_href = ''Beacon-English.pdf''\<rparr>"
  have ps: "soup relative_env ''issue-may'' = [?p0, ?p1]" by code_simp
  have fh2: "fetch_html relative_env may_url = Inr ''issue-may''" by code_simp
  have n0: "\<not> click_download ?p0" "\<not> click_download ?p1" "pdf_href ?p0" by code_simp+
  have uj2: "urljoin relative_env (may_url @ ''/'') ''poster.pdf'' = may_url @ ''/poster.pdf''"
    by (simp add: relative_env_def)
  from pdf_url_first_match [OF ps [symmetric] refl fh2, of 0 0] n0 uj2
  have r3: "extract_pdf_url_from_english_page relative_env ''issue-may'' may_url = may_url @ ''/poster.pdf''"
    by simp
  from r1 r2 r3 show ?thesis by blast
qed

text \<open>
  The claim as stated fails: the preference is decided on the resolved URL, not on the
  href. On a page whose URL itself contains "beacon" and "english", with two relative
  links, the first candidate is returned although only the href of the second contains
  both words.
\<close>

theorem resolved_url_decides_preference:
  "tools_extract_pdf_url_from_english_page relative_env may_url = Inr (Some (may_url @ ''/poster.pdf''))
   \<and> soup relative_env ''issue-may''
       = [\<lparr>a_text = ''Poster'', a_href = ''poster.pdf''\<rparr>,
          \<lparr>a_text = ''This issue'', a_href = ''Beacon-English.pdf''\<rparr>]
   \<and> \<not> beacon_english ''poster.pdf''
   \<and> beacon_english ''Beacon-English.pdf''
   \<and> \<not> tools_click_download \<lparr>a_text = ''Poster'', a_href = ''poster.pdf''\<rparr>
   \<and> \<not> tools_click_download \<lparr>a_text = ''This issue'', a_href = ''Beacon-English.pdf''\<rparr>"
  by code_simp

section \<open>Properties of the harvest loop\<close>

lemmas step_defs = process_page_def Let_def log_event_def on_exception_def append_skipped_def
  mark_processed_def

lemma process_page_events:
  "ev \<in> set (events (fst (process_page e a st u))) \<Longrightarrow> ev \<in> set (events st) \<or> event_url ev = u"
  by (auto simp: step_defs split: option.splits sum.splits prod.splits if_splits)

lemma process_page_events_mono:
  "set (events st) \<subseteq> set (events (fst (process_page e a st u)))"
  by (auto simp: step_defs split: option.splits sum.splits prod.splits if_splits)

lemma process_page_fetches:
  "parse_year_month_from_english_url u \<noteq> None \<Longrightarrow> EvFetch u \<in> set (events (fst (process_page e a st u)))"
  by (auto simp: step_defs split: option.splits sum.splits prod.splits if_splits)

lemma process_page_no_limit:
  "arg_limit a = None \<Longrightarrow> \<not> snd (process_page e a st u)"
  by (auto simp: step_defs split: option.splits sum.splits prod.splits if_splits)

lemma process_page_processed_mono:
  "set (processed st) \<subseteq> set (processed (fst (process_page e a st u)))"
  by (auto simp: step_defs set_add_def split: option.splits sum.splits prod.splits if_splits)

lemma main_loop_events_mono:
  "set (events st) \<subseteq> set (events (main_loop e a us st))"
proof (induction us arbitrary: st)
  case Nil
  show ?case by simp
next
  case (Cons u us)
  obtain st' stop where pp: "process_page e a st u = (st', stop)" by (cases "process_page e a st u")
  have "set (events st) \<subseteq> set (events st')"
    using process_page_events_mono [of st e a u] pp by simp
  with Cons.IH [of st] Cons.IH [of st'] pp show ?case by auto
qed

lemma main_loop_passes_over:
  assumes "\<not> arg_force a" and "u \<in> set (processed st)"
    and "ev \<in> set (events (main_loop e a us st))"
  shows "ev \<in> set (events st) \<or> event_url ev \<noteq> u"
  using assms(2,3)
proof (induction us arbitrary: st)
  case Nil
  then show ?case by simp
next
  case (Cons v vs)
  show ?case
  proof (cases "v \<in> set (processed st)")
    case True
    with Cons assms(1) show ?thesis by simp
  next
    case False
    with Cons.prems(1) have vu: "v \<noteq> u" by auto
    obtain st' stop where pp: "process_page e a st v = (st', stop)" by (cases "process_page e a st v")
    have mono: "u \<in> set (processed st')"
      using process_page_processed_mono [of st e a v] pp Cons.prems(1) by auto
    have step: "\<And>x. x \<in> set (events st') \<Longrightarrow> x \<in> set (events st) \<or> event_url x = v"
      using process_page_events [of _ e a st v] pp by simp
    show ?thesis
    proof (cases stop)
      case True
      with Cons.prems(2) pp False have "ev \<in> set (events st')" by simp
      with step vu show ?thesis by auto
    next
      case nstop: False
      with Cons.prems(2) pp False have "ev \<in> set (events (main_loop e a vs st'))" by simp
      from Cons.IH [OF mono this] step vu show ?thesis by auto
    qed
  qed
qed

lemma main_loop_force_fetches:
  assumes "arg_force a" and "arg_limit a = None"
    and "u \<in> set us" and "parse_year_month_from_english_url u \<noteq> None"
  shows "EvFetch u \<in> set (events (main_loop e a us st))"
  using assms(3)
proof (induction us arbitrary: st)
  case Nil
  then show ?case by simp
next
  case (Cons v vs)
  obtain st' stop where pp: "process_page e a st v = (st', stop)" by (cases "process_page e a st v")
  from process_page_no_limit [OF assms(2), of e st v] pp have ns: "\<not> stop" by simp
  have run: "main_loop e a (v # vs) st = main_loop e a vs st'"
    using assms(1) pp ns by simp
  show ?case
  proof (cases "v = u")
    case True
    from process_page_fetches [OF assms(4), of e a st] pp True have "EvFetch u \<in> set (events st')" by simp
    with main_loop_events_mono [of st' e a vs] run show ?thesis by auto
  next
    case False
    with Cons.prems have "u \<in> set vs" by simp
    from Cons.IH [OF this] run show ?thesis by simp
  qed
qed

lemma process_page_forget:
  "forget (fst (process_page e a st u)) = forget (fst (process_page e a (forget st) u))
   \<and> snd (process_page e a st u) = snd (process_page e a (forget st) u)"
  by (auto simp: step_defs forget_def split: option.splits sum.splits prod.splits if_splits)

lemma main_loop_forget:
  assumes "arg_force a"
  shows "forget (main_loop e a us st) = forget (main_loop e a us (forget st))"
proof (induction us arbitrary: st)
  case Nil
  show ?case by (simp add: forget_def)
next
  case (Cons u us)
  obtain s1 b1 where p1: "process_page e a st u = (s1, b1)" by (cases "process_page e a st u")
  obtain s2 b2 where p2: "process_page e a (forget st) u = (s2, b2)"
    by (cases "process_page e a (forget st) u")
  from process_page_forget [of e a st u] p1 p2 have fs: "forget s1 = forget s2" and bb: "b1 = b2"
    by simp_all
  show ?case
  proof (cases b1)
    case True
    with assms p1 p2 fs bb show ?thesis by simp
  next
    case False
    have "forget (main_loop e a us s1) = forget (main_loop e a us (forget s1))" by (rule Cons.IH)
    also have "\<dots> = forget (main_loop e a us (forget s2))" by (simp add: fs)
    also have "\<dots> = forget (main_loop e a us s2)" by (rule Cons.IH [symmetric])
    finally show ?thesis using assms p1 p2 bb False by simp
  qed
qed

lemma main_loop_ignores_progress:
  assumes "arg_force a"
  shows "forget (main_loop e a us (st\<lparr>processed := ps\<rparr>)) = forget (main_loop e a us st)"
proof -
  have "forget (st\<lparr>processed := ps\<rparr>) = forget st" by (simp add: forget_def)
  with main_loop_forget [OF assms, of e us st] main_loop_forget [OF assms, of e us "st\<lparr>processed := ps\<rparr>"]
  show ?thesis by simp
qed

section \<open>The harvest of the small archive, step by step\<close>

lemma ex_urls_differ: "may_url \<noteq> april_url" "april_url \<noteq> may_url"
  by (simp_all add: may_url_def april_url_def)

lemma ex_parse:
  "parse_year_month_from_english_url may_url = Some (2021, 5)"
  "parse_year_month_from_english_url april_url = Some (2021, 4)"
  by code_simp+

lemma ex_fetch:
  "fetch example_env may_url = Inr ''issue-may''"
  "fetch example_env april_url = Inr ''issue-april''"
  by code_simp+

lemma ex_pdf_url:
  "extract_pdf_url_from_english_page example_env ''issue-may'' may_url = ''https://cdn.example/may.pdf''"
  "extract_pdf_url_from_english_page example_env ''issue-april'' april_url = []"
  by code_simp+

lemma ex_get_pdf:
  "http_get example_env ''https://cdn.example/may.pdf'' = Inr \<lparr>status_code = 200, body = ''%PDF-may''\<rparr>"
  by code_simp

lemma ex_paths:
  "object_path 2021 5 = ''beacon/2021/05/2021-05-Beacon-English.pdf''"
  "local_pdf 2021 5 = ''downloads/2021-05-Beacon-English.pdf''"
  "str_nat 2021 = ''2021''" "fmt02 5 = ''05''"
  by code_simp+

lemma ex_services:
  "page_title example_env html = []"
  "pdf_page_texts example_env data = Inl PdfReadError"
  "upload_error example_env path = None"
  "upsert_error example_env url = None"
  by (simp_all add: example_env_def)

lemma ex_discover:
  "discover_english_pages example_env 2020 None
     = ([ARCHIVES_ROOT, ARCHIVES_ROOT, ARCHIVES_ROOT @ ''?page=1''], Inr [may_url, april_url])"
  by code_simp

lemma ex_download:
  "download_pdf example_env fs ''https://cdn.example/may.pdf'' path
     = (fs(path \<mapsto> ''%PDF-may''), None)"
  by (simp add: download_pdf_def ex_get_pdf raise_for_status_def)

lemma ex_text:
  "extract_pdf_text example_env (fs(path \<mapsto> ''%PDF-may'')) path = []"
  by (simp add: extract_pdf_text_def read_pdf_text_def ex_services)

lemmas ex_facts = ex_parse ex_fetch ex_pdf_url ex_paths ex_services ex_download ex_text
  upload_pdf_to_storage_def upsert_article_def make_payload_def

lemma ex_round_may:
  "events (fst (process_page example_env a st may_url))
     = events st @ [EvFetch may_url, EvDownload may_url ''https://cdn.example/may.pdf'',
                    EvUpload may_url ''beacon/2021/05/2021-05-Beacon-English.pdf'', EvUpsert may_url]"
  "processed (fst (process_page example_env a st may_url)) = set_add may_url (processed st)"
  "state_file (fst (process_page example_env a st may_url))
     = Loaded (Some (sort (set_add may_url (processed st))))"
  "skipped_log (fst (process_page example_env a st may_url)) = skipped_log st"
  "articles (fst (process_page example_env a st may_url))
     = (articles st)(may_url \<mapsto>
          \<lparr>title = ''Process Safety Beacon 2021-05'', content = None, source_page_url = may_url,
           source_pdf_url = ''https://cdn.example/may.pdf'', published_year = 2021,
           published_month = 5, pdf_bucket = arg_bucket a,
           pdf_path = ''beacon/2021/05/2021-05-Beacon-English.pdf''\<rparr>)"
  "storage (fst (process_page example_env a st may_url))
     = (storage st)((arg_bucket a, ''beacon/2021/05/2021-05-Beacon-English.pdf'') \<mapsto> ''%PDF-may'')"
  "done_count (fst (process_page example_env a st may_url)) = done_count st + 1"
  by (simp_all add: step_defs ex_facts)

lemma ex_round_may_stop:
  "snd (process_page example_env a st may_url)
     = (case arg_limit a of None \<Rightarrow> False | Some l \<Rightarrow> l \<le> int (done_count st + 1))"
  by (simp add: step_defs ex_facts split: option.splits)

lemma ex_round_april:
  "events (fst (process_page example_env a st april_url)) = events st @ [EvFetch april_url]"
  "processed (fst (process_page example_env a st april_url)) = set_add april_url (processed st)"
  "state_file (fst (process_page example_env a st april_url))
     = Loaded (Some (sort (set_add april_url (processed st))))"
  "skipped_log (fst (process_page example_env a st april_url))
     = skipped_log st @ [\<lparr>sk_url = april_url, sk_reason = ''no_pdf_url'', sk_error = None\<rparr>]"
  "articles (fst (process_page example_env a st april_url)) = articles st"
  "storage (fst (process_page example_env a st april_url)) = storage st"
  "done_count (fst (process_page example_env a st april_url)) = done_count st"
  "\<not> snd (process_page example_env a st april_url)"
  by (simp_all add: step_defs ex_facts)

lemma main_loop_Cons:
  "main_loop e a (u # us) st =
     (if \<not> arg_force a \<and> u \<in> set (processed st) then main_loop e a us st
      else if snd (process_page e a st u) then fst (process_page e a st u)
      else main_loop e a us (fst (process_page e a st u)))"
  by (simp split: prod.splits)

lemma ex_main:
  "arg_min_year a = 2020 \<Longrightarrow> arg_max_pages a = None \<Longrightarrow>
     fst (main example_env a w) = main_loop example_env a [may_url, april_url] (initial_state w)"
  by (simp add: main_def ex_discover)

lemma ex_args:
  "arg_min_year example_args = 2020" "arg_max_pages example_args = None"
  "\<not> arg_force example_args" "arg_limit example_args = None" "arg_bucket example_args = ''ccps-pdfs''"
  "arg_min_year force_args = 2020" "arg_max_pages force_args = None"
  "arg_force force_args" "arg_limit force_args = None" "arg_bucket force_args = ''ccps-pdfs''"
  "arg_min_year force_limit_args = 2020" "arg_max_pages force_limit_args = None"
  "arg_force force_limit_args" "arg_limit force_limit_args = Some 1"
  by (simp_all add: example_args_def force_args_def force_limit_args_def)

lemma ex_initial:
  "processed (initial_state empty_world) = []"
  "processed (initial_state seen_world) = [may_url, april_url]"
  "events (initial_state w) = events w" "skipped_log (initial_state w) = skipped_log w"
  "articles (initial_state w) = articles w" "storage (initial_state w) = storage w"
  "done_count (initial_state w) = 0"
  "events empty_world = []" "events seen_world = []"
  "skipped_log empty_world = []" "articles empty_world = Map.empty" "articles seen_world = Map.empty"
  "storage empty_world = Map.empty"
  by (simp_all add: initial_state_def empty_world_def seen_world_def load_state_def ex_urls_differ)

lemmas ex_run = ex_main ex_args ex_initial ex_round_may ex_round_may_stop ex_round_april
  ex_urls_differ main_loop_Cons set_add_def

lemma ex_forced_limited:
  "events (fst (main example_env force_limit_args seen_world))
     = [EvFetch may_url, EvDownload may_url ''https://cdn.example/may.pdf'',
        EvUpload may_url ''beacon/2021/05/2021-05-Beacon-English.pdf'', EvUpsert may_url]"
  by (simp add: ex_run del: main_loop.simps(2))

lemma ex_forced:
  "events (fst (main example_env force_args seen_world))
     = [EvFetch may_url, EvDownload may_url ''https://cdn.example/may.pdf'',
        EvUpload may_url ''beacon/2021/05/2021-05-Beacon-English.pdf'', EvUpsert may_url,
        EvFetch april_url]"
  "articles (fst (main example_env force_args seen_world)) april_url = None"
  by (simp_all add: ex_run del: main_loop.simps(2))

lemma ex_first_run:
  "processed (fst (main example_env example_args empty_world)) = [may_url, april_url]"
  "articles (fst (main example_env example_args empty_world)) april_url = None"
  "skipped_log (fst (main example_env example_args empty_world))
     = [\<lparr>sk_url = april_url, sk_reason = ''no_pdf_url'', sk_error = None\<rparr>]"
  "events (fst (main example_env example_args empty_world))
     = [EvFetch may_url, EvDownload may_url ''https://cdn.example/may.pdf'',
        EvUpload may_url ''beacon/2021/05/2021-05-Beacon-English.pdf'', EvUpsert may_url,
        EvFetch april_url]"
  by (simp_all add: ex_run del: main_loop.simps(2))

lemma ex_june:
  "parse_year_month_from_english_url june_url = Some (2021, 6)"
  "fetch example_env june_url = Inl (HTTPError 404)"
  by code_simp+

lemma ex_round_june:
  "skipped_log (fst (process_page example_env a st june_url))
     = skipped_log st @ [\<lparr>sk_url = june_url, sk_reason = ''exception'', sk_error = Some (HTTPError 404)\<rparr>]"
  by (simp add: step_defs ex_june)

lemma ex_tools:
  "tools_extract_pdf_url_from_english_page readable_env may_url = Inr (Some ''https://cdn.example/may.pdf'')"
  "http_get readable_env ''https://cdn.example/may.pdf'' = Inr \<lparr>status_code = 200, body = ''%PDF-may''\<rparr>"
  by code_simp+

lemma ex_tools_text: "pdf_page_texts readable_env data = Inr [Some ''Beacon'', None]"
  by (simp add: readable_env_def)

lemma ex_backfill:
  "t_processed (fst (backfill_step readable_env empty_backfill may_url)) = [''https://cdn.example/may.pdf'']"
  "t_skipped_pages (fst (backfill_step readable_env empty_backfill may_url)) = []"
  by (simp_all add: backfill_step_def Let_def ex_tools download_file_200 [OF ex_tools(2)]
        tools_extract_pdf_text_def ex_tools_text empty_backfill_def set_add_def)

section \<open>Properties of the progress set\<close>

lemma process_page_stored_mono:
  "stored_ok st v \<Longrightarrow> stored_ok (fst (process_page e a st u)) v"
  by (auto simp: step_defs stored_ok_def upload_pdf_to_storage_def upsert_article_def
        make_payload_def download_pdf_def
      split: option.splits sum.splits prod.splits if_splits)

lemma process_page_no_pdf_mono:
  "no_pdf_logged st v \<Longrightarrow> no_pdf_logged (fst (process_page e a st u)) v"
  by (auto simp: step_defs no_pdf_logged_def split: option.splits sum.splits prod.splits if_splits)

lemma process_page_added:
  assumes "v \<in> set (processed (fst (process_page e a st u)))" and "v \<notin> set (processed st)"
  shows "v = u \<and> ((stored_ok (fst (process_page e a st u)) u
                    \<and> EvUpsert u \<in> set (events (fst (process_page e a st u))))
                   \<or> no_pdf_logged (fst (process_page e a st u)) u)"
  using assms
  by (auto simp: step_defs stored_ok_def no_pdf_logged_def upload_pdf_to_storage_def
        upsert_article_def make_payload_def set_add_def
      split: option.splits sum.splits prod.splits if_splits)

lemma process_page_persists:
  "state_file (fst (process_page e a st u)) = Loaded (Some (sort (processed (fst (process_page e a st u)))))
   \<or> (processed (fst (process_page e a st u)) = processed st
       \<and> state_file (fst (process_page e a st u)) = state_file st)"
  by (auto simp: step_defs split: option.splits sum.splits prod.splits if_splits)

lemma process_page_other_skip:
  assumes "skipped_log (fst (process_page e a st u)) \<noteq> skipped_log st"
    and "sk_reason (last (skipped_log (fst (process_page e a st u)))) \<noteq> ''no_pdf_url''"
  shows "processed (fst (process_page e a st u)) = processed st
         \<and> state_file (fst (process_page e a st u)) = state_file st"
  using assms
  by (auto simp: step_defs split: option.splits sum.splits prod.splits if_splits)

lemma main_loop_skip:
  "\<not> arg_force a \<and> u \<in> set (processed st) \<Longrightarrow> main_loop e a (u # us) st = main_loop e a us st"
  by simp

lemma main_loop_stop:
  "\<not> (\<not> arg_force a \<and> u \<in> set (processed st)) \<Longrightarrow> snd (process_page e a st u) \<Longrightarrow>
     main_loop e a (u # us) st = fst (process_page e a st u)"
  by (auto split: prod.splits)

lemma main_loop_next:
  "\<not> (\<not> arg_force a \<and> u \<in> set (processed st)) \<Longrightarrow> \<not> snd (process_page e a st u) \<Longrightarrow>
     main_loop e a (u # us) st = main_loop e a us (fst (process_page e a st u))"
  by (auto split: prod.splits)

lemma main_loop_stored_mono:
  "stored_ok st v \<Longrightarrow> stored_ok (main_loop e a us st) v"
proof (induction us arbitrary: st)
  case Nil
  then show ?case by simp
next
  case (Cons u us)
  from Cons.prems have "stored_ok (fst (process_page e a st u)) v" by (rule process_page_stored_mono)
  with Cons show ?case by (auto split: prod.splits)
qed

lemma main_loop_no_pdf_mono:
  "no_pdf_logged st v \<Longrightarrow> no_pdf_logged (main_loop e a us st) v"
proof (induction us arbitrary: st)
  case Nil
  then show ?case by simp
next
  case (Cons u us)
  from Cons.prems have "no_pdf_logged (fst (process_page e a st u)) v" by (rule process_page_no_pdf_mono)
  with Cons show ?case by (auto split: prod.splits)
qed

lemma main_loop_added:
  assumes "v \<in> set (processed (main_loop e a us st))" and "v \<notin> set (processed st)"
  shows "(stored_ok (main_loop e a us st) v \<and> EvUpsert v \<in> set (events (main_loop e a us st)))
         \<or> no_pdf_logged (main_loop e a us st) v"
  using assms
proof (induction us arbitrary: st)
  case Nil
  then show ?case by simp
next
  case (Cons u us)
  let ?st' = "fst (process_page e a st u)"
  show ?case
  proof (cases "\<not> arg_force a \<and> u \<in> set (processed st)")
    case True
    with Cons show ?thesis by simp
  next
    case False
    show ?thesis
    proof (cases "v \<in> set (processed ?st')")
      case True
      from process_page_added [OF True Cons.prems(2)]
      have now: "(stored_ok ?st' v \<and> EvUpsert v \<in> set (events ?st')) \<or> no_pdf_logged ?st' v"
        by simp
      show ?thesis
      proof (cases "snd (process_page e a st u)")
        case True
        with now show ?thesis by (simp only: main_loop_stop [OF False True])
      next
        case nstop: False
        have run: "main_loop e a (u # us) st = main_loop e a us ?st'"
          by (rule main_loop_next [OF False nstop])
        from now main_loop_stored_mono [of ?st' v e a us] main_loop_no_pdf_mono [of ?st' v e a us]
             main_loop_events_mono [of ?st' e a us]
        show ?thesis unfolding run by blast
      qed
    next
      case nv: False
      show ?thesis
      proof (cases "snd (process_page e a st u)")
        case True
        with nv Cons.prems(1) show ?thesis by (simp only: main_loop_stop [OF False True])
      next
        case nstop: False
        have run: "main_loop e a (u # us) st = main_loop e a us ?st'"
          by (rule main_loop_next [OF False nstop])
        from Cons.prems(1) have "v \<in> set (processed (main_loop e a us ?st'))" by (simp only: run)
        from Cons.IH [OF this nv] show ?thesis by (simp only: run)
      qed
    qed
  qed
qed

lemma main_loop_persists:
  "state_file (main_loop e a us st) = Loaded (Some (sort (processed (main_loop e a us st))))
   \<or> (processed (main_loop e a us st) = processed st \<and> state_file (main_loop e a us st) = state_file st)"
proof (induction us arbitrary: st)
  case Nil
  show ?case by simp
next
  case (Cons u us)
  let ?st' = "fst (process_page e a st u)"
  show ?case
  proof (cases "\<not> arg_force a \<and> u \<in> set (processed st)")
    case True
    with Cons.IH [of st] show ?thesis by simp
  next
    case False
    show ?thesis
    proof (cases "snd (process_page e a st u)")
      case True
      with process_page_persists [of e a st u] show ?thesis
        by (simp only: main_loop_stop [OF False True])
    next
      case nstop: False
      have run: "main_loop e a (u # us) st = main_loop e a us ?st'"
        by (rule main_loop_next [OF False nstop])
      from Cons.IH [of ?st'] process_page_persists [of e a st u] show ?thesis
        unfolding run by auto
    qed
  qed
qed

lemma backfill_step_added:
  assumes "backfill_step e ts ep = (ts', r)" and "t_processed ts' \<noteq> t_processed ts"
  shows "t_skipped_pages ts' = t_skipped_pages ts
         \<and> t_state_file ts' = sort (t_processed ts')
         \<and> (\<exists>pdf text.
               t_processed ts' = set_add pdf (t_processed ts)
               \<and> t_files ts' (''downloads/'' @ safe_filename_from_pdf_url pdf) \<noteq> None
               \<and> t_json_files ts' (json_path_of pdf)
                   = Some \<lparr>sc_english_page_url = ep, sc_pdf_url = pdf, sc_content = text\<rparr>)"
proof -
  from assms obtain pdf where pdf: "tools_extract_pdf_url_from_english_page e ep = Inr (Some pdf)"
    by (cases "tools_extract_pdf_url_from_english_page e ep")
       (auto simp: backfill_step_def tools_skip_page_def split: option.splits)
  let ?path = "''downloads/'' @ safe_filename_from_pdf_url pdf"
  from assms pdf have ne: "pdf \<noteq> []" and new: "pdf \<notin> set (t_processed ts)"
    by (auto simp: backfill_step_def tools_skip_page_def split: if_splits)
  from assms pdf ne new obtain fs where dl: "download_file e (t_files ts) pdf ?path = (fs, Inr True)"
    by (cases "download_file e (t_files ts) pdf ?path")
       (auto simp: backfill_step_def Let_def tools_skip_page_def split: sum.splits if_splits)
  from assms pdf ne new dl obtain extracted where tx: "tools_extract_pdf_text e fs ?path = Inr extracted"
    by (cases "tools_extract_pdf_text e fs ?path")
       (auto simp: backfill_step_def Let_def tools_skip_page_def)
  from tx have written: "fs ?path \<noteq> None"
    by (auto simp: tools_extract_pdf_text_def split: option.splits)
  from assms(1) pdf ne new dl tx
  have ts': "ts' = ts\<lparr>t_files := fs,
                 t_json_files := (t_json_files ts)(json_path_of pdf \<mapsto>
                     \<lparr>sc_english_page_url = ep, sc_pdf_url = pdf, sc_content = extracted\<rparr>),
                 t_processed := set_add pdf (t_processed ts),
                 t_state_file := sort (set_add pdf (t_processed ts))\<rparr>"
    by (simp add: backfill_step_def Let_def json_path_of_def)
  have "t_processed ts' = set_add pdf (t_processed ts)
        \<and> t_files ts' ?path \<noteq> None
        \<and> t_json_files ts' (json_path_of pdf)
            = Some \<lparr>sc_english_page_url = ep, sc_pdf_url = pdf, sc_content = extracted\<rparr>"
    using written by (simp add: ts')
  then have "\<exists>pdf text.
               t_processed ts' = set_add pdf (t_processed ts)
               \<and> t_files ts' (''downloads/'' @ safe_filename_from_pdf_url pdf) \<noteq> None
               \<and> t_json_files ts' (json_path_of pdf)
                   = Some \<lparr>sc_english_page_url = ep, sc_pdf_url = pdf, sc_content = text\<rparr>"
    by blast
  moreover have "t_skipped_pages ts' = t_skipped_pages ts \<and> t_state_file ts' = sort (t_processed ts')"
    by (simp add: ts')
  ultimately show ?thesis by blast
qed

text \<open>
  C1 (as amended). In the backend harvester an identifier is added to the progress set
  during a run only when its round stored the issue (the PDF is in object storage and the
  row for the identifier is in the article table, after an upsert attempted for it) or
  when its page had no PDF link (skip entry \<open>no_pdf_url\<close>); whenever an identifier is
  added, the state file holds the sorted progress set at the end of the run. If every
  identifier of the progress set the run starts with has a row or a \<open>no_pdf_url\<close>
  entry, so has every identifier of the final one. A round that ends in any other skip
  (\<open>bad_ym\<close>, \<open>exception\<close>) leaves the progress set and the state file unchanged. In the
  tools harvester, which has no remote store, a round changes the progress set only by
  adding the PDF URL after the PDF was downloaded and the JSON file with its text
  written, and such a round logs no skip.
\<close>

theorem progress_set_additions:
  "(u \<in> set (processed (main_loop e a us st)) \<and> u \<notin> set (processed st) \<longrightarrow>
      ((stored_ok (main_loop e a us st) u \<and> EvUpsert u \<in> set (events (main_loop e a us st)))
       \<or> no_pdf_logged (main_loop e a us st) u)
      \<and> state_file (main_loop e a us st) = Loaded (Some (sort (processed (main_loop e a us st)))))
   \<and> ((\<forall>v \<in> set (processed st). stored_ok st v \<or> no_pdf_logged st v) \<longrightarrow>
        (\<forall>v \<in> set (processed (main_loop e a us st)).
            stored_ok (main_loop e a us st) v \<or> no_pdf_logged (main_loop e a us st) v))
   \<and> (skipped_log (fst (process_page e a st u)) \<noteq> skipped_log st
        \<and> sk_reason (last (skipped_log (fst (process_page e a st u)))) \<noteq> ''no_pdf_url'' \<longrightarrow>
        processed (fst (process_page e a st u)) = processed st
        \<and> state_file (fst (process_page e a st u)) = state_file st)
   \<and> (backfill_step e ts ep = (ts', r) \<and> t_processed ts' \<noteq> t_processed ts \<longrightarrow>
        t_skipped_pages ts' = t_skipped_pages ts
        \<and> t_state_file ts' = sort (t_processed ts')
        \<and> (\<exists>pdf text.
               t_processed ts' = set_add pdf (t_processed ts)
               \<and> t_files ts' (''downloads/'' @ safe_filename_from_pdf_url pdf) \<noteq> None
               \<and> t_json_files ts' (json_path_of pdf)
                   = Some \<lparr>sc_english_page_url = ep, sc_pdf_url = pdf, sc_content = text\<rparr>))"
proof -
  let ?F = "main_loop e a us st"
  have p1: "u \<in> set (processed ?F) \<and> u \<notin> set (processed st) \<longrightarrow>
      ((stored_ok ?F u \<and> EvUpsert u \<in> set (events ?F)) \<or> no_pdf_logged ?F u)
      \<and> state_file ?F = Loaded (Some (sort (processed ?F)))"
  proof
    assume h: "u \<in> set (processed ?F) \<and> u \<notin> set (processed st)"
    then have "(stored_ok ?F u \<and> EvUpsert u \<in> set (events ?F)) \<or> no_pdf_logged ?F u"
      using main_loop_added by blast
    moreover from h have "processed ?F \<noteq> processed st" by auto
    with main_loop_persists [of e a us st]
    have "state_file ?F = Loaded (Some (sort (processed ?F)))" by blast
    ultimately show "((stored_ok ?F u \<and> EvUpsert u \<in> set (events ?F)) \<or> no_pdf_logged ?F u)
      \<and> state_file ?F = Loaded (Some (sort (processed ?F)))" by blast
  qed
  have p2: "(\<forall>v \<in> set (processed st). stored_ok st v \<or> no_pdf_logged st v) \<longrightarrow>
        (\<forall>v \<in> set (processed ?F). stored_ok ?F v \<or> no_pdf_logged ?F v)"
  proof (intro impI ballI)
    fix v
    assume inv: "\<forall>v \<in> set (processed st). stored_ok st v \<or> no_pdf_logged st v"
      and v: "v \<in> set (processed ?F)"
    show "stored_ok ?F v \<or> no_pdf_logged ?F v"
    proof (cases "v \<in> set (processed st)")
      case True
      with inv have "stored_ok st v \<or> no_pdf_logged st v" by blast
      then show ?thesis using main_loop_stored_mono main_loop_no_pdf_mono by blast
    next
      case False
      from main_loop_added [OF v False] show ?thesis by blast
    qed
  qed
  have p3: "skipped_log (fst (process_page e a st u)) \<noteq> skipped_log st
        \<and> sk_reason (last (skipped_log (fst (process_page e a st u)))) \<noteq> ''no_pdf_url'' \<longrightarrow>
        processed (fst (process_page e a st u)) = processed st
        \<and> state_file (fst (process_page e a st u)) = state_file st"
    using process_page_other_skip by blast
  have p4: "backfill_step e ts ep = (ts', r) \<and> t_processed ts' \<noteq> t_processed ts \<longrightarrow>
        t_skipped_pages ts' = t_skipped_pages ts
        \<and> t_state_file ts' = sort (t_processed ts')
        \<and> (\<exists>pdf text.
               t_processed ts' = set_add pdf (t_processed ts)
               \<and> t_files ts' (''downloads/'' @ safe_filename_from_pdf_url pdf) \<noteq> None
               \<and> t_json_files ts' (json_path_of pdf)
                   = Some \<lparr>sc_english_page_url = ep, sc_pdf_url = pdf, sc_content = text\<rparr>)"
    using backfill_step_added by blast
  from p1 p2 p3 p4 show ?thesis by blast
qed

theorem progress_set_additions_witness:
  "may_url \<in> set (processed (fst (main example_env example_args empty_world)))
   \<and> may_url \<notin> set (processed (initial_state empty_world))
   \<and> stored_ok (fst (main example_env example_args empty_world)) may_url
   \<and> skipped_log (fst (process_page example_env example_args empty_world june_url))
       = [\<lparr>sk_url = june_url, sk_reason = ''exception'', sk_error = Some (HTTPError 404)\<rparr>]
   \<and> processed (fst (process_page example_env example_args empty_world june_url)) = []
   \<and> t_processed (fst (backfill_step readable_env empty_backfill may_url)) = [''https://cdn.example/may.pdf'']
   \<and> t_skipped_pages (fst (backfill_step readable_env empty_backfill may_url)) = []"
proof -
  let ?F = "fst (main example_env example_args empty_world)"
  have loop: "main_loop example_env example_args [may_url, april_url] (initial_state empty_world) = ?F"
    by (simp add: ex_main ex_args)
  have h1: "may_url \<in> set (processed ?F)" by (simp add: ex_first_run)
  have h2: "may_url \<notin> set (processed (initial_state empty_world))" by (simp add: ex_initial)
  note inst = progress_set_additions [where u = may_url and e = example_env and a = example_args
      and us = "[may_url, april_url]" and st = "initial_state empty_world"]
  from inst h1 h2 have "(stored_ok ?F may_url \<and> EvUpsert may_url \<in> set (events ?F)) \<or> no_pdf_logged ?F may_url"
    unfolding loop by blast
  moreover have "\<not> no_pdf_logged ?F may_url"
    by (simp add: no_pdf_logged_def ex_first_run ex_urls_differ)
  ultimately have c1: "stored_ok ?F may_url" by blast
  let ?J = "fst (process_page example_env example_args empty_world june_url)"
  have sk: "skipped_log ?J
       = [\<lparr>sk_url = june_url, sk_reason = ''exception'', sk_error = Some (HTTPError 404)\<rparr>]"
    by (simp add: ex_round_june empty_world_def)
  have e0: "skipped_log empty_world = []" "processed empty_world = []" by (simp_all add: empty_world_def)
  note inst3 = progress_set_additions [where u = june_url and e = example_env and a = example_args
      and st = empty_world]
  from inst3 sk e0 have c3: "processed ?J = []" by simp
  let ?T = "fst (backfill_step readable_env empty_backfill may_url)"
  have t0: "t_processed empty_backfill = []" "t_skipped_pages empty_backfill = []"
    by (simp_all add: empty_backfill_def)
  note inst4 = progress_set_additions [where e = readable_env and ts = empty_backfill and ep = may_url
      and ts' = ?T and r = "snd (backfill_step readable_env empty_backfill may_url)"]
  from inst4 ex_backfill(1) t0 have c4: "t_skipped_pages ?T = []" by simp
  from h1 h2 c1 sk c3 ex_backfill(1) c4 show ?thesis by blast
qed

text \<open>
  The claim as stated fails: in a first run over the small archive the April issue, whose
  page has no PDF link, ends in the skip log, has no row in the article table and no
  upsert attempted, and is in the progress set.
\<close>

theorem skipped_identifier_enters_progress_set:
  "april_url \<in> set (processed (fst (main example_env example_args empty_world)))
   \<and> skipped_log (fst (main example_env example_args empty_world))
       = [\<lparr>sk_url = april_url, sk_reason = ''no_pdf_url'', sk_error = None\<rparr>]
   \<and> articles (fst (main example_env example_args empty_world)) april_url = None
   \<and> EvUpsert april_url \<notin> set (events (fst (main example_env example_args empty_world)))"
  by (simp add: ex_first_run ex_urls_differ)

section \<open>Text extraction that fails\<close>

text \<open>
  C4. When the page of an issue is fetched, it has a PDF link, the PDF is downloaded and
  PyPDF2 fails on it, \<open>extract_pdf_text\<close> returns the empty string (the failure of
  \<open>read_pdf_text\<close>, the body of its \<open>try\<close>, does not propagate), the round goes on to
  upload the file and, when the store accepts the upload, to upsert the record; when the
  store accepts the upsert too, the record of the issue is stored with no content, the
  identifier enters the progress set, the item is counted as done and nothing is added
  to the skip log.
\<close>

theorem extraction_failure_is_tolerated:
  assumes parse: "parse_year_month_from_english_url u = Some (year, month)"
    and page: "fetch e u = Inr html"
    and link: "extract_pdf_url_from_english_page e html u = pdf_url" "pdf_url \<noteq> []"
    and pdf: "http_get e pdf_url = Inr r" "raise_for_status r = None"
    and bad: "pdf_page_texts e (body r) = Inl err"
    and fs: "fs = (local_files st)(local_pdf year month \<mapsto> body r)"
    and st': "st' = fst (process_page e a st u)"
  shows "read_pdf_text e fs (local_pdf year month) = Inl err
         \<and> extract_pdf_text e fs (local_pdf year month) = []
         \<and> EvUpload u (object_path year month) \<in> set (events st')
         \<and> (upload_error e (object_path year month) = None \<longrightarrow>
               EvUpsert u \<in> set (events st')
               \<and> storage st' (arg_bucket a, object_path year month) = Some (body r))
         \<and> (upload_error e (object_path year month) = None \<and> upsert_error e u = None \<longrightarrow>
               (\<exists>p. articles st' u = Some p \<and> content p = None \<and> source_page_url p = u
                    \<and> source_pdf_url p = pdf_url \<and> pdf_path p = object_path year month)
               \<and> u \<in> set (processed st')
               \<and> skipped_log st' = skipped_log st
               \<and> done_count st' = done_count st + 1)"
proof -
  have dl: "download_pdf e (local_files st) pdf_url (local_pdf year month) = (fs, None)"
    using pdf fs by (simp add: download_pdf_def)
  have rd: "read_pdf_text e fs (local_pdf year month) = Inl err"
    using bad fs by (simp add: read_pdf_text_def)
  then have tx: "extract_pdf_text e fs (local_pdf year month) = []"
    by (simp add: extract_pdf_text_def)
  have here: "fs (local_pdf year month) = Some (body r)" using fs by simp
  note facts = parse page link dl tx here step_defs upload_pdf_to_storage_def upsert_article_def
    make_payload_def set_add_def
  have c3: "EvUpload u (object_path year month) \<in> set (events st')"
    unfolding st' by (simp add: facts split: option.splits)
  have c4: "upload_error e (object_path year month) = None \<longrightarrow>
               EvUpsert u \<in> set (events st')
               \<and> storage st' (arg_bucket a, object_path year month) = Some (body r)"
    unfolding st' by (simp add: facts split: option.splits)
  have c5: "upload_error e (object_path year month) = None \<and> upsert_error e u = None \<longrightarrow>
               (\<exists>p. articles st' u = Some p \<and> content p = None \<and> source_page_url p = u
                    \<and> source_pdf_url p = pdf_url \<and> pdf_path p = object_path year month)
               \<and> u \<in> set (processed st')
               \<and> skipped_log st' = skipped_log st
               \<and> done_count st' = done_count st + 1"
    unfolding st' by (simp add: facts)
  from rd tx c3 c4 c5 show ?thesis by blast
qed

theorem extraction_failure_is_tolerated_witness:
  "pdf_page_texts example_env ''%PDF-may'' = Inl PdfReadError
   \<and> extract_pdf_text example_env (Map.empty(local_pdf 2021 5 \<mapsto> ''%PDF-may'')) (local_pdf 2021 5) = []
   \<and> EvUpload may_url (object_path 2021 5) \<in> set (events (fst (process_page example_env example_args empty_world may_url)))
   \<and> EvUpsert may_url \<in> set (events (fst (process_page example_env example_args empty_world may_url)))
   \<and> may_url \<in> set (processed (fst (process_page example_env example_args empty_world may_url)))
   \<and> skipped_log (fst (process_page example_env example_args empty_world may_url)) = []"
proof -
  have rs: "raise_for_status \<lparr>status_code = 200, body = ''%PDF-may''\<rparr> = None"
    by (simp add: raise_for_status_def)
  have ne: "''https://cdn.example/may.pdf'' \<noteq> []" by simp
  have bad: "pdf_page_texts example_env (body \<lparr>status_code = 200, body = ''%PDF-may''\<rparr>) = Inl PdfReadError"
    by (simp add: ex_services)
  have files: "Map.empty(local_pdf 2021 5 \<mapsto> ''%PDF-may'')
      = (local_files empty_world)(local_pdf 2021 5 \<mapsto> body \<lparr>status_code = 200, body = ''%PDF-may''\<rparr>)"
    by (simp add: empty_world_def)
  note inst = extraction_failure_is_tolerated [OF ex_parse(1) ex_fetch(1) ex_pdf_url(1) ne ex_get_pdf rs bad files refl,
      where a = example_args]
  have up: "upload_error example_env (object_path 2021 5) = None" "upsert_error example_env may_url = None"
    by (simp_all add: ex_services)
  have sk: "skipped_log empty_world = []" by (simp add: empty_world_def)
  from inst up sk bad show ?thesis by simp
qed

section \<open>Properties of the keyword-mapping pass\<close>
















section \<open>The force flag, the item limit and the upsert\<close>

lemma round_outcomes:
  obtains
    (bad_ym) "parse_year_month_from_english_url u = None"
  | (fetch_failed) year month err where
      "parse_year_month_from_english_url u = Some (year, month)" "fetch e u = Inl err"
  | (no_pdf) year month html where
      "parse_year_month_from_english_url u = Some (year, month)" "fetch e u = Inr html"
      "extract_pdf_url_from_english_page e html u = []"
  | (get_failed) year month html err where
      "parse_year_month_from_english_url u = Some (year, month)" "fetch e u = Inr html"
      "extract_pdf_url_from_english_page e html u \<noteq> []"
      "http_get e (extract_pdf_url_from_english_page e html u) = Inl err"
  | (bad_status) year month html r err where
      "parse_year_month_from_english_url u = Some (year, month)" "fetch e u = Inr html"
      "extract_pdf_url_from_english_page e html u \<noteq> []"
      "http_get e (extract_pdf_url_from_english_page e html u) = Inr r"
      "raise_for_status r = Some err"
  | (upload_failed) year month html r err where
      "parse_year_month_from_english_url u = Some (year, month)" "fetch e u = Inr html"
      "extract_pdf_url_from_english_page e html u \<noteq> []"
      "http_get e (extract_pdf_url_from_english_page e html u) = Inr r"
      "raise_for_status r = None" "upload_error e (object_path year month) = Some err"
  | (upsert_failed) year month html r err where
      "parse_year_month_from_english_url u = Some (year, month)" "fetch e u = Inr html"
      "extract_pdf_url_from_english_page e html u \<noteq> []"
      "http_get e (extract_pdf_url_from_english_page e html u) = Inr r"
      "raise_for_status r = None" "upload_error e (object_path year month) = None"
      "upsert_error e u = Some err"
  | (stored) year month html r where
      "parse_year_month_from_english_url u = Some (year, month)" "fetch e u = Inr html"
      "extract_pdf_url_from_english_page e html u \<noteq> []"
      "http_get e (extract_pdf_url_from_english_page e html u) = Inr r"
      "raise_for_status r = None" "upload_error e (object_path year month) = None"
      "upsert_error e u = None"
proof (cases "parse_year_month_from_english_url u")
  case None
  then show ?thesis by (rule bad_ym)
next
  case (Some ym)
  obtain year month where ym: "ym = (year, month)" by (cases ym)
  note p = Some [unfolded ym]
  show ?thesis
  proof (cases "fetch e u")
    case (Inl err)
    with p show ?thesis by (rule fetch_failed)
  next
    case (Inr html)
    note f = this
    show ?thesis
    proof (cases "extract_pdf_url_from_english_page e html u = []")
      case True
      with p f show ?thesis by (rule no_pdf)
    next
      case False
      note ne = this
      show ?thesis
      proof (cases "http_get e (extract_pdf_url_from_english_page e html u)")
        case (Inl err)
        with p f ne show ?thesis by (rule get_failed)
      next
        case (Inr r)
        note g = this
        show ?thesis
        proof (cases "raise_for_status r")
          case (Some err)
          with p f ne g show ?thesis by (rule bad_status)
        next
          case None
          note rs = this
          show ?thesis
          proof (cases "upload_error e (object_path year month)")
            case (Some err)
            with p f ne g rs show ?thesis by (rule upload_failed)
          next
            case None
            note up = this
            show ?thesis
            proof (cases "upsert_error e u")
              case (Some err)
              with p f ne g rs up show ?thesis by (rule upsert_failed)
            next
              case None
              with p f ne g rs up show ?thesis by (rule stored)
            qed
          qed
        qed
      qed
    qed
  qed
qed

lemmas round_defs = step_defs page_payload_def download_pdf_def upload_pdf_to_storage_def
  upsert_article_def make_payload_def extract_pdf_text_def read_pdf_text_def

lemma process_page_break_is_limit:
  assumes "snd (process_page e a st u)"
  shows "\<exists>l. arg_limit a = Some l \<and> l \<le> int (done_count (fst (process_page e a st u)))"
  using assms
  by (cases rule: round_outcomes [where u = u and e = e]) (simp_all add: round_defs split: option.splits)

lemma process_page_upsert_event:
  "EvUpsert v \<in> set (events (fst (process_page e a st u)))
     \<longleftrightarrow> EvUpsert v \<in> set (events st) \<or> (v = u \<and> page_payload e a u \<noteq> None)"
  by (cases rule: round_outcomes [where u = u and e = e]) (auto simp: round_defs)

lemma process_page_articles:
  "articles (fst (process_page e a st u))
     = (case page_payload e a u of
          None \<Rightarrow> articles st
        | Some p \<Rightarrow> if upsert_error e u = None then (articles st)(u \<mapsto> p) else articles st)"
  by (cases rule: round_outcomes [where u = u and e = e]) (simp_all add: round_defs)

lemma loop_breaks_Cons:
  "loop_breaks e a (u # us) st =
     (if \<not> arg_force a \<and> u \<in> set (processed st) then loop_breaks e a us st
      else snd (process_page e a st u) \<or> loop_breaks e a us (fst (process_page e a st u)))"
  by (simp split: prod.splits)

lemma main_loop_after_break:
  "loop_breaks e a pre st \<Longrightarrow> main_loop e a (pre @ rest) st = main_loop e a pre st"
proof (induction pre arbitrary: st)
  case Nil
  then show ?case by simp
next
  case (Cons v vs)
  show ?case
  proof (cases "\<not> arg_force a \<and> v \<in> set (processed st)")
    case True
    with Cons show ?thesis by simp
  next
    case False
    show ?thesis
    proof (cases "snd (process_page e a st v)")
      case True
      have "main_loop e a ((v # vs) @ rest) st = fst (process_page e a st v)"
        using main_loop_stop [OF False True, of "vs @ rest"] by simp
      with main_loop_stop [OF False True, of vs] show ?thesis by simp
    next
      case nstop: False
      from Cons.prems False nstop have "loop_breaks e a vs (fst (process_page e a st v))"
        by (simp add: loop_breaks_Cons del: loop_breaks.simps(2))
      from Cons.IH [OF this] main_loop_next [OF False nstop, of "vs @ rest"]
           main_loop_next [OF False nstop, of vs]
      show ?thesis by simp
    qed
  qed
qed

lemma main_loop_without_break:
  "\<not> loop_breaks e a pre st \<Longrightarrow>
     main_loop e a (pre @ rest) st = main_loop e a rest (main_loop e a pre st)"
proof (induction pre arbitrary: st)
  case Nil
  then show ?case by simp
next
  case (Cons v vs)
  show ?case
  proof (cases "\<not> arg_force a \<and> v \<in> set (processed st)")
    case True
    with Cons show ?thesis by simp
  next
    case False
    from Cons.prems False have nstop: "\<not> snd (process_page e a st v)"
      and nb: "\<not> loop_breaks e a vs (fst (process_page e a st v))"
      by (simp_all add: loop_breaks_Cons del: loop_breaks.simps(2))
    from Cons.IH [OF nb] main_loop_next [OF False nstop, of "vs @ rest"]
         main_loop_next [OF False nstop, of vs]
    show ?thesis by simp
  qed
qed

lemma loop_break_is_limit:
  "loop_breaks e a us st \<Longrightarrow>
     \<exists>l. arg_limit a = Some l \<and> l \<le> int (done_count (main_loop e a us st))"
proof (induction us arbitrary: st)
  case Nil
  then show ?case by simp
next
  case (Cons v vs)
  show ?case
  proof (cases "\<not> arg_force a \<and> v \<in> set (processed st)")
    case True
    with Cons show ?thesis by simp
  next
    case False
    show ?thesis
    proof (cases "snd (process_page e a st v)")
      case True
      from process_page_break_is_limit [OF True] main_loop_stop [OF False True, of vs]
      show ?thesis by simp
    next
      case nstop: False
      from Cons.prems False nstop have "loop_breaks e a vs (fst (process_page e a st v))"
        by (simp add: loop_breaks_Cons del: loop_breaks.simps(2))
      from Cons.IH [OF this] main_loop_next [OF False nstop, of vs] show ?thesis by simp
    qed
  qed
qed

lemma main_loop_keeps_row:
  assumes "page_payload e a u = Some p" and "upsert_error e u = None"
  shows "articles st u = Some p \<Longrightarrow> articles (main_loop e a vs st) u = Some p"
proof (induction vs arbitrary: st)
  case Nil
  then show ?case by simp
next
  case (Cons v vs)
  have step: "articles (fst (process_page e a st v)) u = Some p"
    using assms Cons.prems by (cases "v = u") (auto simp: process_page_articles split: option.splits)
  show ?case
  proof (cases "\<not> arg_force a \<and> v \<in> set (processed st)")
    case True
    with Cons show ?thesis by simp
  next
    case False
    show ?thesis
    proof (cases "snd (process_page e a st v)")
      case True
      with step main_loop_stop [OF False True, of vs] show ?thesis by simp
    next
      case nstop: False
      from Cons.IH [OF step] main_loop_next [OF False nstop, of vs] show ?thesis by simp
    qed
  qed
qed

lemma forced_round_runs:
  assumes "arg_force a" and "\<not> loop_breaks e a pre st"
  shows "main_loop e a (pre @ u # post) st
           = (if snd (process_page e a (main_loop e a pre st) u)
              then fst (process_page e a (main_loop e a pre st) u)
              else main_loop e a post (fst (process_page e a (main_loop e a pre st) u)))"
proof -
  have "main_loop e a (pre @ u # post) st = main_loop e a (u # post) (main_loop e a pre st)"
    by (rule main_loop_without_break [OF assms(2)])
  with assms(1) show ?thesis by (simp split: prod.splits)
qed

lemma forced_fetch:
  assumes "arg_force a" and "parse_year_month_from_english_url u \<noteq> None"
  shows "EvFetch u \<in> set (events (main_loop e a (pre @ u # post) st)) \<or> loop_breaks e a pre st"
proof (cases "loop_breaks e a pre st")
  case True
  then show ?thesis by simp
next
  case False
  let ?m = "main_loop e a pre st"
  have "EvFetch u \<in> set (events (fst (process_page e a ?m u)))"
    by (rule process_page_fetches [OF assms(2)])
  moreover have "set (events (fst (process_page e a ?m u)))
      \<subseteq> set (events (main_loop e a post (fst (process_page e a ?m u))))"
    by (rule main_loop_events_mono)
  ultimately show ?thesis using forced_round_runs [OF assms(1) False, of u post] by auto
qed

lemma forced_store:
  assumes "arg_force a" and "page_payload e a u = Some p" and "upsert_error e u = None"
  shows "articles (main_loop e a (pre @ u # post) st) u = Some p \<or> loop_breaks e a pre st"
proof (cases "loop_breaks e a pre st")
  case True
  then show ?thesis by simp
next
  case False
  let ?m = "main_loop e a pre st"
  have now: "articles (fst (process_page e a ?m u)) u = Some p"
    using assms(2,3) by (simp add: process_page_articles)
  from main_loop_keeps_row [OF assms(2,3) now, of post] now
       forced_round_runs [OF assms(1) False, of u post]
  show ?thesis by simp
qed

lemma upsert_only_after_upload:
  "EvUpsert u \<in> set (events (main_loop e a us st)) \<Longrightarrow>
     EvUpsert u \<in> set (events st) \<or> (u \<in> set us \<and> page_payload e a u \<noteq> None)"
proof (induction us arbitrary: st)
  case Nil
  then show ?case by simp
next
  case (Cons v vs)
  show ?case
  proof (cases "\<not> arg_force a \<and> v \<in> set (processed st)")
    case True
    with Cons show ?thesis by auto
  next
    case False
    show ?thesis
    proof (cases "snd (process_page e a st v)")
      case True
      with Cons.prems main_loop_stop [OF False True, of vs]
      have "EvUpsert u \<in> set (events (fst (process_page e a st v)))" by simp
      then show ?thesis by (auto simp: process_page_upsert_event)
    next
      case nstop: False
      with Cons.prems main_loop_next [OF False nstop, of vs]
      have "EvUpsert u \<in> set (events (main_loop e a vs (fst (process_page e a st v))))" by simp
      from Cons.IH [OF this] show ?thesis by (auto simp: process_page_upsert_event)
    qed
  qed
qed

lemma row_changes_only_by_upsert:
  "articles (main_loop e a us st) u \<noteq> articles st u \<Longrightarrow>
     u \<in> set us \<and> page_payload e a u \<noteq> None \<and> upsert_error e u = None"
proof (induction us arbitrary: st)
  case Nil
  then show ?case by simp
next
  case (Cons v vs)
  have step: "articles (fst (process_page e a st v)) u \<noteq> articles st u \<Longrightarrow>
      v = u \<and> page_payload e a u \<noteq> None \<and> upsert_error e u = None"
    by (auto simp: process_page_articles split: option.splits if_splits)
  show ?case
  proof (cases "\<not> arg_force a \<and> v \<in> set (processed st)")
    case True
    with Cons show ?thesis by auto
  next
    case False
    show ?thesis
    proof (cases "snd (process_page e a st v)")
      case True
      with Cons.prems main_loop_stop [OF False True, of vs] step show ?thesis by auto
    next
      case nstop: False
      show ?thesis
      proof (cases "articles (fst (process_page e a st v)) u = articles st u")
        case True
        with Cons.prems main_loop_next [OF False nstop, of vs]
        have "articles (main_loop e a vs (fst (process_page e a st v))) u
                \<noteq> articles (fst (process_page e a st v)) u" by simp
        from Cons.IH [OF this] show ?thesis by auto
      next
        case False
        with step show ?thesis by auto
      qed
    qed
  qed
qed

lemma page_payload_defined:
  "page_payload e a u \<noteq> None \<longleftrightarrow>
     (\<exists>year month html r.
        parse_year_month_from_english_url u = Some (year, month)
        \<and> fetch e u = Inr html
        \<and> extract_pdf_url_from_english_page e html u \<noteq> []
        \<and> http_get e (extract_pdf_url_from_english_page e html u) = Inr r
        \<and> raise_for_status r = None
        \<and> upload_error e (object_path year month) = None)"
  by (cases rule: round_outcomes [where u = u and e = e]) (simp_all add: page_payload_def Let_def)

text \<open>
  C2 (as amended). Without the force flag, no fetch, download, upload or upsert is
  attempted during the run for an identifier that is in the progress set loaded from the
  state file. With the force flag the progress set has no influence on the run: apart
  from the progress set and the state file themselves, the run is the one an arbitrary
  other progress set gives. With the force flag, every listed identifier whose year and
  month parse is fetched again, unless the item limit stopped the loop in the round of an
  identifier listed before it; and unless the limit stopped the loop before, the row of
  an identifier is in the article table at the end of the run, replacing whatever was
  stored under it, when its page is fetched and yields a PDF URL and the download, the
  upload and the upsert succeed. When the loop breaks, the number of items done has
  reached the limit and no later identifier is processed. In any run an upsert is
  attempted for an identifier only if it is listed, its page was fetched and yielded a
  PDF URL, and the download and the upload succeeded; and its row changes only if in
  addition the store accepts the upsert, which replaces the row stored under the same
  \<open>source_page_url\<close>. The last conjunct spells out when \<open>page_payload\<close> is defined:
  exactly under these conditions on the page, the download and the upload.
\<close>

theorem progress_set_and_force:
  "(\<not> arg_force a \<and> u \<in> set (processed (initial_state w)) \<longrightarrow>
      (\<forall>ev \<in> set (events (fst (main e a w))). ev \<in> set (events w) \<or> event_url ev \<noteq> u))
   \<and> (arg_force a \<longrightarrow>
        forget (main_loop e a us (st\<lparr>processed := ps\<rparr>)) = forget (main_loop e a us st))
   \<and> (arg_force a \<and> arg_limit a = None \<and> u \<in> set us
        \<and> parse_year_month_from_english_url u \<noteq> None \<longrightarrow>
        EvFetch u \<in> set (events (main_loop e a us st)))
   \<and> (upsert_error e (source_page_url row) = None \<longrightarrow>
        upsert_article e tbl row = (tbl(source_page_url row \<mapsto> row), None))
   \<and> (arg_force a \<and> parse_year_month_from_english_url u \<noteq> None \<longrightarrow>
        EvFetch u \<in> set (events (main_loop e a (pre @ u # post) st)) \<or> loop_breaks e a pre st)
   \<and> (arg_force a \<and> page_payload e a u = Some p \<and> upsert_error e u = None \<longrightarrow>
        articles (main_loop e a (pre @ u # post) st) u = Some p \<or> loop_breaks e a pre st)
   \<and> (loop_breaks e a pre st \<longrightarrow>
        (\<exists>l. arg_limit a = Some l \<and> l \<le> int (done_count (main_loop e a pre st)))
        \<and> main_loop e a (pre @ u # post) st = main_loop e a pre st)
   \<and> (EvUpsert u \<in> set (events (main_loop e a us st)) \<longrightarrow>
        EvUpsert u \<in> set (events st) \<or> (u \<in> set us \<and> page_payload e a u \<noteq> None))
   \<and> (articles (main_loop e a us st) u \<noteq> articles st u \<longrightarrow>
        u \<in> set us \<and> page_payload e a u \<noteq> None \<and> upsert_error e u = None)
   \<and> (page_payload e a u \<noteq> None \<longleftrightarrow>
        (\<exists>year month html r.
           parse_year_month_from_english_url u = Some (year, month)
           \<and> fetch e u = Inr html
           \<and> extract_pdf_url_from_english_page e html u \<noteq> []
           \<and> http_get e (extract_pdf_url_from_english_page e html u) = Inr r
           \<and> raise_for_status r = None
           \<and> upload_error e (object_path year month) = None))"
proof -
  have a1: "\<not> arg_force a \<and> u \<in> set (processed (initial_state w)) \<longrightarrow>
      (\<forall>ev \<in> set (events (fst (main e a w))). ev \<in> set (events w) \<or> event_url ev \<noteq> u)"
  proof (intro impI ballI)
    fix ev
    assume h: "\<not> arg_force a \<and> u \<in> set (processed (initial_state w))"
      and ev: "ev \<in> set (events (fst (main e a w)))"
    have ev0: "events (initial_state w) = events w" by (simp add: initial_state_def)
    show "ev \<in> set (events w) \<or> event_url ev \<noteq> u"
    proof (cases "snd (discover_english_pages e (arg_min_year a) (arg_max_pages a))")
      case (Inl err)
      then have "fst (main e a w) = initial_state w"
        by (cases "discover_english_pages e (arg_min_year a) (arg_max_pages a)") (simp add: main_def)
      with ev ev0 show ?thesis by simp
    next
      case (Inr english_pages)
      then have "fst (main e a w) = main_loop e a english_pages (initial_state w)"
        by (cases "discover_english_pages e (arg_min_year a) (arg_max_pages a)") (simp add: main_def)
      with ev have "ev \<in> set (events (main_loop e a english_pages (initial_state w)))" by simp
      from main_loop_passes_over [OF _ _ this] h ev0 show ?thesis by simp
    qed
  qed
  have a2: "arg_force a \<longrightarrow>
        forget (main_loop e a us (st\<lparr>processed := ps\<rparr>)) = forget (main_loop e a us st)"
    by (simp add: main_loop_ignores_progress)
  have a3: "arg_force a \<and> arg_limit a = None \<and> u \<in> set us
        \<and> parse_year_month_from_english_url u \<noteq> None \<longrightarrow>
        EvFetch u \<in> set (events (main_loop e a us st))"
    using main_loop_force_fetches by blast
  have a4: "upsert_error e (source_page_url row) = None \<longrightarrow>
        upsert_article e tbl row = (tbl(source_page_url row \<mapsto> row), None)"
    by (simp add: upsert_article_def)
  have a5: "arg_force a \<and> parse_year_month_from_english_url u \<noteq> None \<longrightarrow>
        EvFetch u \<in> set (events (main_loop e a (pre @ u # post) st)) \<or> loop_breaks e a pre st"
    using forced_fetch by blast
  have a6: "arg_force a \<and> page_payload e a u = Some p \<and> upsert_error e u = None \<longrightarrow>
        articles (main_loop e a (pre @ u # post) st) u = Some p \<or> loop_breaks e a pre st"
    using forced_store by blast
  have a7: "loop_breaks e a pre st \<longrightarrow>
        (\<exists>l. arg_limit a = Some l \<and> l \<le> int (done_count (main_loop e a pre st)))
        \<and> main_loop e a (pre @ u # post) st = main_loop e a pre st"
    using loop_break_is_limit main_loop_after_break by blast
  have a8: "EvUpsert u \<in> set (events (main_loop e a us st)) \<longrightarrow>
        EvUpsert u \<in> set (events st) \<or> (u \<in> set us \<and> page_payload e a u \<noteq> None)"
    using upsert_only_after_upload by blast
  have a9: "articles (main_loop e a us st) u \<noteq> articles st u \<longrightarrow>
        u \<in> set us \<and> page_payload e a u \<noteq> None \<and> upsert_error e u = None"
    using row_changes_only_by_upsert by blast
  have a10: "page_payload e a u \<noteq> None \<longleftrightarrow>
        (\<exists>year month html r.
           parse_year_month_from_english_url u = Some (year, month)
           \<and> fetch e u = Inr html
           \<and> extract_pdf_url_from_english_page e html u \<noteq> []
           \<and> http_get e (extract_pdf_url_from_english_page e html u) = Inr r
           \<and> raise_for_status r = None
           \<and> upload_error e (object_path year month) = None)"
    by (rule page_payload_defined)
  show ?thesis by (intro conjI a1 a2 a3 a4 a5 a6 a7 a8 a9 a10)
qed

lemma ex_payload:
  "page_payload example_env a may_url
     = Some \<lparr>title = ''Process Safety Beacon 2021-05'', content = None, source_page_url = may_url,
             source_pdf_url = ''https://cdn.example/may.pdf'', published_year = 2021,
             published_month = 5, pdf_bucket = arg_bucket a,
             pdf_path = ''beacon/2021/05/2021-05-Beacon-English.pdf''\<rparr>"
  "page_payload example_env a april_url = None"
  by (simp_all add: page_payload_def Let_def ex_facts ex_get_pdf raise_for_status_def
        extract_pdf_text_def read_pdf_text_def)

lemma ex_limit5:
  "arg_force force_limit5_args" "arg_limit force_limit5_args = Some 5"
  by (simp_all add: force_limit5_args_def example_args_def)

theorem progress_set_and_force_witness:
  "may_url \<in> set (processed (initial_state seen_world))
   \<and> EvFetch may_url \<notin> set (events (fst (main example_env example_args seen_world)))
   \<and> EvFetch may_url \<in> set (events (main_loop example_env force_args [may_url, april_url]
                                      (initial_state seen_world)))
   \<and> forget (main_loop example_env force_args [may_url, april_url]
               ((initial_state seen_world)\<lparr>processed := []\<rparr>))
       = forget (main_loop example_env force_args [may_url, april_url] (initial_state seen_world))
   \<and> EvFetch april_url \<in> set (events (main_loop example_env force_limit5_args [may_url, april_url]
                                        (initial_state seen_world)))
   \<and> articles (main_loop example_env force_args [may_url, april_url] (initial_state seen_world)) may_url
       = Some \<lparr>title = ''Process Safety Beacon 2021-05'', content = None, source_page_url = may_url,
               source_pdf_url = ''https://cdn.example/may.pdf'', published_year = 2021,
               published_month = 5, pdf_bucket = ''ccps-pdfs'',
               pdf_path = ''beacon/2021/05/2021-05-Beacon-English.pdf''\<rparr>
   \<and> EvUpsert april_url \<notin> set (events (main_loop example_env force_args [may_url, april_url]
                                         (initial_state seen_world)))
   \<and> loop_breaks example_env force_limit_args [may_url] (initial_state seen_world)
   \<and> main_loop example_env force_limit_args [may_url, april_url] (initial_state seen_world)
       = main_loop example_env force_limit_args [may_url] (initial_state seen_world)"
proof -
  let ?s0 = "initial_state seen_world"
  have nf: "\<not> arg_force example_args" by (simp add: ex_args)
  have mem: "may_url \<in> set (processed ?s0)" by (simp add: ex_initial)
  have ev0: "events seen_world = []" "events ?s0 = []" by (simp_all add: ex_initial)
  note inst = progress_set_and_force [where a = example_args and u = may_url and w = seen_world
      and e = example_env]
  from inst nf mem
  have "\<forall>ev \<in> set (events (fst (main example_env example_args seen_world))).
          ev \<in> set (events seen_world) \<or> event_url ev \<noteq> may_url"
    by blast
  then have c1: "EvFetch may_url \<notin> set (events (fst (main example_env example_args seen_world)))"
    using ev0 by auto
  have f: "arg_force force_args" "arg_limit force_args = None" by (simp_all add: ex_args)
  have pm: "parse_year_month_from_english_url may_url \<noteq> None"
    and pa: "parse_year_month_from_english_url april_url \<noteq> None" by (simp_all add: ex_parse)
  have ok: "upsert_error example_env may_url = None" by (simp add: ex_services)
  note inst2 = progress_set_and_force [where a = force_args and u = may_url and e = example_env
      and us = "[may_url, april_url]" and st = ?s0 and ps = "[]" and pre = "[]" and post = "[april_url]"
      and p = "the (page_payload example_env force_args may_url)"]
  from inst2 f pm
  have c2: "EvFetch may_url \<in> set (events (main_loop example_env force_args [may_url, april_url] ?s0))"
    by simp
  from inst2 f
  have c3: "forget (main_loop example_env force_args [may_url, april_url] (?s0\<lparr>processed := []\<rparr>))
       = forget (main_loop example_env force_args [may_url, april_url] ?s0)"
    by simp
  have nb5: "\<not> loop_breaks example_env force_limit5_args [may_url] ?s0"
    by (simp add: loop_breaks_Cons ex_limit5 ex_round_may_stop ex_initial del: loop_breaks.simps(2))
  note inst5 = progress_set_and_force [where a = force_limit5_args and u = april_url and e = example_env
      and st = ?s0 and pre = "[may_url]" and post = "[]"]
  from inst5 ex_limit5 pa nb5
  have c5: "EvFetch april_url \<in> set (events (main_loop example_env force_limit5_args [may_url, april_url] ?s0))"
    by simp
  have pay: "page_payload example_env force_args may_url
      = Some (the (page_payload example_env force_args may_url))"
    by (simp add: ex_payload)
  from inst2 f pay ok
  have "articles (main_loop example_env force_args [may_url, april_url] ?s0) may_url
          = Some (the (page_payload example_env force_args may_url))"
    by simp
  then have c6: "articles (main_loop example_env force_args [may_url, april_url] ?s0) may_url
       = Some \<lparr>title = ''Process Safety Beacon 2021-05'', content = None, source_page_url = may_url,
               source_pdf_url = ''https://cdn.example/may.pdf'', published_year = 2021,
               published_month = 5, pdf_bucket = ''ccps-pdfs'',
               pdf_path = ''beacon/2021/05/2021-05-Beacon-English.pdf''\<rparr>"
    by (simp add: ex_payload ex_args)
  note inst8 = progress_set_and_force [where a = force_args and u = april_url and e = example_env
      and us = "[may_url, april_url]" and st = ?s0]
  from inst8 ev0 have c8: "EvUpsert april_url \<notin> set (events (main_loop example_env force_args [may_url, april_url] ?s0))"
    by (auto simp: ex_payload)
  have br: "loop_breaks example_env force_limit_args [may_url] ?s0"
    by (simp add: loop_breaks_Cons ex_args ex_round_may_stop ex_initial del: loop_breaks.simps(2))
  note inst7 = progress_set_and_force [where a = force_limit_args and u = april_url and e = example_env
      and st = ?s0 and pre = "[may_url]" and post = "[]"]
  from inst7 br
  have c7: "main_loop example_env force_limit_args [may_url, april_url] ?s0
       = main_loop example_env force_limit_args [may_url] ?s0"
    by simp
  from mem c1 c2 c3 c5 c6 c8 br c7 show ?thesis by blast
qed

text \<open>
  The claim as stated fails: with the force flag and an item limit of 1 the loop breaks
  after the May issue and the April issue, which is in the progress set, is not fetched
  again; and with the force flag and no limit the April issue is fetched again but, its
  page having no PDF link, never upserted.
\<close>

theorem force_does_not_reach_every_identifier:
  "arg_force force_limit_args
   \<and> april_url \<in> set (processed (initial_state seen_world))
   \<and> snd (discover_english_pages example_env 2020 None) = Inr [may_url, april_url]
   \<and> EvFetch april_url \<notin> set (events (fst (main example_env force_limit_args seen_world)))
   \<and> arg_force force_args
   \<and> EvFetch april_url \<in> set (events (fst (main example_env force_args seen_world)))
   \<and> EvUpsert april_url \<notin> set (events (fst (main example_env force_args seen_world)))
   \<and> articles (fst (main example_env force_args seen_world)) april_url = None"
  by (simp add: ex_args ex_initial ex_discover ex_forced_limited ex_forced ex_urls_differ)

end
